theory Spec2Isabelle
  imports Main "HOL-Library.AList"
begin

section \<open>Data model of \<^verbatim>\<open>bartseq/read_tagger/__init__.py\<close>\<close>

text \<open>
  Python values are modelled as follows: \<^verbatim>\<open>str\<close> is \<^typ>\<open>string\<close>, \<^verbatim>\<open>int\<close> is
  \<^typ>\<open>int\<close>, \<^verbatim>\<open>Optional[str]\<close> is \<^typ>\<open>string option\<close>, a \<^verbatim>\<open>dict\<close> is an association
  list in insertion order (\<^const>\<open>AList.update\<close> overwrites a key where it stands and
  appends a new key at the end, as a Python dict does; \<^const>\<open>map_of\<close> is the lookup), a
  \<^verbatim>\<open>set\<close> is a HOL set. Every \<^verbatim>\<open>raise\<close> is a value \<open>Inl e\<close> of a sum type.
\<close>

datatype error =
    RaisedNotImplemented
  | KeyError string
  | AttributeError

type_synonym 'v dict = "(string \<times> 'v) list"

text \<open>Truthiness of an \<^verbatim>\<open>Optional[str]\<close>: \<^verbatim>\<open>None\<close> and the empty string are falsy.\<close>

definition truthy :: "string option \<Rightarrow> bool" where
  "truthy s = (case s of None \<Rightarrow> False | Some v \<Rightarrow> v \<noteq> [])"

text \<open>
  Python slicing \<^verbatim>\<open>s[a:b]\<close>. A bound may be \<^verbatim>\<open>None\<close>; a negative bound counts from
  the end; every bound is clipped to \<open>0..len(s)\<close>; a slice never raises.
\<close>

definition slice_index :: "nat \<Rightarrow> int \<Rightarrow> nat" where
  "slice_index n i = (if i < 0 then nat (max 0 (int n + i)) else min n (nat i))"

definition py_slice :: "string \<Rightarrow> int option \<Rightarrow> int option \<Rightarrow> string" where
  "py_slice s a b =
     (let n = length s;
          lo = (case a of None \<Rightarrow> 0 | Some i \<Rightarrow> slice_index n i);
          hi = (case b of None \<Rightarrow> n | Some j \<Rightarrow> slice_index n j)
      in take (hi - lo) (drop lo s))"

subsection \<open>TaggedRead\<close>

record TaggedRead =
  header :: string
  qual :: string
  len_primer :: int
  junk :: "string option"
  barcode :: "string option"
  linker :: "string option"
  amplicon :: string
  other_barcodes :: "string set"
  barcode_mismatch :: bool

definition has_multiple_barcodes :: "TaggedRead \<Rightarrow> bool" where
  "has_multiple_barcodes r = (other_barcodes r \<noteq> {})"

definition is_just_primer :: "TaggedRead \<Rightarrow> bool" where
  "is_just_primer r = (barcode r \<noteq> None \<and> int (length (amplicon r)) \<le> len_primer r)"

text \<open>
  \<^verbatim>\<open>is_regular\<close> returns \<^verbatim>\<open>self.barcode and not self.is_just_primer\<close>; the model is the
  truthiness of that value, which is all its caller tests.
\<close>

definition is_regular :: "TaggedRead \<Rightarrow> bool" where
  "is_regular r = (truthy (barcode r) \<and> \<not> is_just_primer r)"

text \<open>The table \<^verbatim>\<open>PREDS\<close>, in the order of its keyword arguments.\<close>

definition PREDS :: "(string \<times> (TaggedRead \<Rightarrow> bool)) list" where
  "PREDS =
     [(''n_only_primer'', \<lambda>r. is_just_primer r),
      (''n_multiple_bcs'', \<lambda>r. has_multiple_barcodes r),
      (''n_no_barcode'', \<lambda>r. \<not> truthy (barcode r)),
      (''n_barcode_mismatch'', \<lambda>r. barcode_mismatch r),
      (''n_junk'', \<lambda>r. truthy (junk r)),
      (''n_regular'', \<lambda>r. is_regular r)]"

section \<open>Mismatch expansion\<close>

definition BASES :: "char set" where
  "BASES = set ''ATGC''"

text \<open>
  The iteration of the set \<^verbatim>\<open>BASES - {c}\<close>. Python leaves the order of a set's elements
  open; the model fixes one.
\<close>

definition bases_without :: "char \<Rightarrow> char list" where
  "bases_without c = filter (\<lambda>b. b \<noteq> c) ''ATGC''"

text \<open>
  A generator is modelled by the list of the values it yields and the exception that ends
  it, if any. \<^verbatim>\<open>get_mismatches\<close> yields the barcode before it tests \<^verbatim>\<open>max_mm\<close>.
\<close>

definition get_mismatches :: "string \<Rightarrow> int \<Rightarrow> string list \<times> error option" where
  "get_mismatches bc max_mm =
     (if max_mm \<noteq> 1 then ([bc], Some RaisedNotImplemented)
      else (bc # concat (map (\<lambda>i. map (\<lambda>mismatch. take i bc @ mismatch # drop (i + 1) bc)
                                      (bases_without (bc ! i)))
                            [0..<length bc]),
            None))"

section \<open>Barcode index\<close>

type_synonym bc_pairs = "(string \<times> string) set"

text \<open>
  The state of the loop in \<^verbatim>\<open>get_all_barcodes\<close>: \<^verbatim>\<open>found\<close>, \<^verbatim>\<open>blacklist\<close> and the
  warnings emitted so far, each as (pattern, previous barcode, barcode).
\<close>

type_synonym index_state = "string dict \<times> bc_pairs dict \<times> (string \<times> string \<times> string) list"

definition claim_pattern :: "string \<Rightarrow> string \<Rightarrow> index_state \<Rightarrow> index_state" where
  "claim_pattern bc pattern = (\<lambda>(found, bl, warns).
     (let previous_barcode = map_of found pattern in
      if truthy previous_barcode then
        (let prev = the previous_barcode;
             bl_item = (case map_of bl pattern of None \<Rightarrow> {} | Some s \<Rightarrow> s)
         in (AList.update pattern bc found,
             AList.update pattern (insert (bc, prev) (insert (prev, bc) bl_item)) bl,
             warns @ [(pattern, prev, bc)]))
      else (AList.update pattern bc found, bl, warns)))"

fun scan_barcodes :: "string list \<Rightarrow> int \<Rightarrow> index_state \<Rightarrow> error + index_state" where
  "scan_barcodes [] max_mm st = Inr st"
| "scan_barcodes (bc # bcs) max_mm st =
     (case get_mismatches bc max_mm of
        (patterns, None) \<Rightarrow> scan_barcodes bcs max_mm (fold (claim_pattern bc) patterns st)
      | (patterns, Some e) \<Rightarrow> Inl e)"

text \<open>
  When the generator raises, the exception leaves \<^verbatim>\<open>get_all_barcodes\<close> and the dicts
  built so far are lost with it, so the second branch does not process its patterns.
\<close>

text \<open>\<^verbatim>\<open>for pattern in blacklist: del found[pattern]\<close>; \<^verbatim>\<open>del\<close> raises on a missing key.\<close>

fun del_patterns :: "string list \<Rightarrow> string dict \<Rightarrow> error + string dict" where
  "del_patterns [] found = Inr found"
| "del_patterns (pattern # ps) found =
     (if map_of found pattern = None then Inl (KeyError pattern)
      else del_patterns ps (AList.delete pattern found))"

definition get_all_barcodes ::
  "string list \<Rightarrow> int \<Rightarrow> error + (string dict \<times> bc_pairs dict \<times> (string \<times> string \<times> string) list)"
where
  "get_all_barcodes barcodes max_mm =
     (case scan_barcodes barcodes max_mm ([], [], []) of
        Inl e \<Rightarrow> Inl e
      | Inr (found, bl, warns) \<Rightarrow>
          (case del_patterns (map fst bl) found of
             Inl e \<Rightarrow> Inl e
           | Inr found' \<Rightarrow> Inr (found', bl, warns)))"

section \<open>Pattern matcher\<close>

text \<open>
  Modelled from the spec: the class \<^verbatim>\<open>Automaton\<close> of the library \<^verbatim>\<open>ahocorasick\<close>, which
  is not part of the sources. \<^verbatim>\<open>add_word\<close> stores a value under a key (the empty key is
  not stored) and \<^verbatim>\<open>iter\<close> reports every occurrence of every key in the text as
  (index of the last character, value), ascending by that index; among the keys that end
  at one index the longest comes first, which is the order in which an Aho-Corasick scan
  follows its failure links.
\<close>

type_synonym automaton = "string dict"

definition add_word :: "string \<Rightarrow> string \<Rightarrow> automaton \<Rightarrow> automaton" where
  "add_word key v A = (if key = [] then A else AList.update key v A)"

definition automaton_iter :: "automaton \<Rightarrow> string \<Rightarrow> (nat \<times> string) list" where
  "automaton_iter A text =
     concat (map (\<lambda>e. concat (map (\<lambda>s.
                case map_of A (take (Suc e - s) (drop s text)) of
                  None \<Rightarrow> []
                | Some v \<Rightarrow> [(e, v)]) [0..<Suc e])) [0..<length text])"

text \<open>
  An automaton that holds no word is a case the spec leaves out. There
  \<^verbatim>\<open>make_automaton\<close> builds nothing, and the library's \<^verbatim>\<open>iter\<close> raises
  \<^verbatim>\<open>AttributeError\<close> instead of scanning. \<open>iter_error\<close> is the exception that a scan
  with the automaton raises, if there is one.
\<close>

definition iter_error :: "automaton \<Rightarrow> error option" where
  "iter_error A = (if A = [] then Some AttributeError else None)"

section \<open>ReadTagger\<close>

record ReadTagger =
  bc_to_id :: "string dict"
  len_linker :: int
  self_len_primer :: int
  stats :: "int dict option"
  automaton :: automaton
  blacklist :: "bc_pairs dict"

definition initial_stats :: "int dict" where
  "initial_stats =
     [(''n_only_primer'', 0), (''n_multiple_bcs'', 0), (''n_no_barcode'', 0),
      (''n_regular'', 0), (''n_barcode_mismatch'', 0), (''n_junk'', 0)]"

text \<open>
  \<^verbatim>\<open>ReadTagger.__init__\<close>. The result carries the warnings that \<^verbatim>\<open>get_all_barcodes\<close>
  emitted beside the new object.
\<close>

definition ReadTagger_init ::
  "string dict \<Rightarrow> int \<Rightarrow> int \<Rightarrow> int \<Rightarrow> bool
     \<Rightarrow> error + (ReadTagger \<times> (string \<times> string \<times> string) list)"
where
  "ReadTagger_init bc_ids ll lp max_mm use_stats =
     (case get_all_barcodes (map fst bc_ids) max_mm of
        Inl e \<Rightarrow> Inl e
      | Inr (all_barcodes, bl, warns) \<Rightarrow>
          Inr (\<lparr>bc_to_id = bc_ids, len_linker = ll, self_len_primer = lp,
                stats = (if \<not> use_stats then None else Some initial_stats),
                automaton = fold (\<lambda>(pattern, bc). add_word pattern bc) all_barcodes [],
                blacklist = bl\<rparr>,
               warns))"

text \<open>
  \<^verbatim>\<open>get_tagger\<close>; the two defaults come from a module that is not part of the sources, so
  both lengths are arguments here. The dict comprehension keeps one entry per barcode
  sequence.
\<close>

definition get_tagger ::
  "(string \<times> string) list \<Rightarrow> int \<Rightarrow> int
     \<Rightarrow> error + (ReadTagger \<times> (string \<times> string \<times> string) list)"
where
  "get_tagger id_to_bc ll lp =
     ReadTagger_init (fold (\<lambda>(ident, bc). AList.update bc ident) id_to_bc []) ll lp 1 True"

definition search_barcode :: "ReadTagger \<Rightarrow> string \<Rightarrow> (int \<times> int \<times> string) list" where
  "search_barcode self read =
     map (\<lambda>(e, bc). (int e - int (length bc) + 1, int e + 1, bc))
         (automaton_iter (automaton self) read)"

text \<open>The keys of \<^verbatim>\<open>OrderedDict((match, None) for match in ...)\<close>, in insertion order.\<close>

definition ordered_matches :: "'a list \<Rightarrow> 'a list" where
  "ordered_matches ms = map fst (fold (\<lambda>m. AList.update m ()) ms [])"

text \<open>\<^verbatim>\<open>self.bc_to_id[bc]\<close> for each remaining match; a missing key raises.\<close>

fun lookup_ids :: "string dict \<Rightarrow> (int \<times> int \<times> string) list \<Rightarrow> error + string list" where
  "lookup_ids d [] = Inr []"
| "lookup_ids d ((_, _, bc) # ms) =
     (case map_of d bc of
        None \<Rightarrow> Inl (KeyError bc)
      | Some i \<Rightarrow> (case lookup_ids d ms of Inl e \<Rightarrow> Inl e | Inr ids \<Rightarrow> Inr (i # ids)))"

text \<open>\<^verbatim>\<open>for name, pred in PREDS.items(): if pred(read): self.stats[name] += 1\<close>\<close>

fun count_preds ::
  "(string \<times> (TaggedRead \<Rightarrow> bool)) list \<Rightarrow> TaggedRead \<Rightarrow> int dict \<Rightarrow> error + int dict"
where
  "count_preds [] r st = Inr st"
| "count_preds ((name, pred) # ps) r st =
     (if pred r then
        (case map_of st name of
           None \<Rightarrow> Inl (KeyError name)
         | Some n \<Rightarrow> count_preds ps r (AList.update name (n + 1) st))
      else count_preds ps r st)"

definition record_stats :: "ReadTagger \<Rightarrow> TaggedRead \<Rightarrow> error + (TaggedRead \<times> ReadTagger)" where
  "record_stats self r =
     (case stats self of
        None \<Rightarrow> Inr (r, self)
      | Some st \<Rightarrow>
          (case count_preds PREDS r st of
             Inl e \<Rightarrow> Inl e
           | Inr st' \<Rightarrow> Inr (r, self\<lparr>stats := Some st'\<rparr>)))"

text \<open>
  \<^verbatim>\<open>tag_read\<close>. Without a match the three variables of the first match are \<^verbatim>\<open>None\<close>,
  \<^verbatim>\<open>bc_to_id.get(None)\<close> is \<^verbatim>\<open>None\<close> (the keys are strings) and no other match is left,
  which is the branch of the empty list below. \<^verbatim>\<open>search_barcode\<close> is a generator: the
  exception of \<^verbatim>\<open>self.automaton.iter(read)\<close> surfaces here, where its values are
  collected, before anything else is done.
\<close>

definition tag_read ::
  "ReadTagger \<Rightarrow> string \<Rightarrow> string \<Rightarrow> string \<Rightarrow> error + (TaggedRead \<times> ReadTagger)"
where
  "tag_read self hdr seq_read seq_qual =
     (case iter_error (automaton self) of
        Some e \<Rightarrow> Inl e
      | None \<Rightarrow>
     (case ordered_matches (search_barcode self seq_read) of
        [] \<Rightarrow>
          record_stats self
            \<lparr>header = hdr, qual = seq_qual, len_primer = self_len_primer self,
             junk = None, barcode = None, linker = None, amplicon = seq_read,
             other_barcodes = {}, barcode_mismatch = False\<rparr>
      | (bc_start, bc_end, bc) # match_iter \<Rightarrow>
          (let bc_id = map_of (bc_to_id self) bc in
           case lookup_ids (bc_to_id self) match_iter of
             Inl e \<Rightarrow> Inl e
           | Inr ids \<Rightarrow>
               (let linker_end = (if bc_end \<noteq> 0 then Some (bc_end + len_linker self) else None);
                    jnk = py_slice seq_read None (Some bc_start)
                in record_stats self
                     \<lparr>header = hdr, qual = seq_qual, len_primer = self_len_primer self,
                      junk = (if jnk = [] then None else Some jnk),
                      barcode = bc_id,
                      linker = Some (py_slice seq_read (Some bc_end) linker_end),
                      amplicon = py_slice seq_read linker_end None,
                      other_barcodes = set ids - set_option bc_id,
                      barcode_mismatch = (py_slice seq_read (Some bc_start) (Some bc_end) \<noteq> bc)\<rparr>))))"

text \<open>A caller that tags a finite sequence of reads with one tagger, one after the other.\<close>

fun tag_reads ::
  "ReadTagger \<Rightarrow> (string \<times> string \<times> string) list \<Rightarrow> error + (TaggedRead list \<times> ReadTagger)"
where
  "tag_reads self [] = Inr ([], self)"
| "tag_reads self ((hdr, seq_read, seq_qual) # reads) =
     (case tag_read self hdr seq_read seq_qual of
        Inl e \<Rightarrow> Inl e
      | Inr (r, self') \<Rightarrow>
          (case tag_reads self' reads of
             Inl e \<Rightarrow> Inl e
           | Inr (rs, self'') \<Rightarrow> Inr (r # rs, self'')))"

definition stat :: "ReadTagger \<Rightarrow> string \<Rightarrow> int" where
  "stat self name = (case stats self of None \<Rightarrow> 0 | Some st \<Rightarrow> (case map_of st name of None \<Rightarrow> 0 | Some n \<Rightarrow> n))"

text \<open>A caller that builds a tagger with \<^verbatim>\<open>get_tagger\<close> and tags a list of reads with it.\<close>

definition run_tagger ::
  "(string \<times> string) list \<Rightarrow> int \<Rightarrow> int \<Rightarrow> (string \<times> string \<times> string) list
     \<Rightarrow> error + (TaggedRead list \<times> ReadTagger)"
where
  "run_tagger id_to_bc ll lp reads =
     (case get_tagger id_to_bc ll lp of
        Inl e \<Rightarrow> Inl e
      | Inr (t, w) \<Rightarrow> tag_reads t reads)"

section \<open>Example values\<close>

text \<open>
  The tagger of the spec's third scenario: one barcode \<open>AAAA\<close> named \<open>BC1\<close>,
  linker length 2, primer length 4; the argument is the current statistics.
\<close>

definition scenario_automaton :: automaton where
  "scenario_automaton =
     [(''AAAA'', ''AAAA''), (''TAAA'', ''AAAA''), (''GAAA'', ''AAAA''), (''CAAA'', ''AAAA''),
      (''ATAA'', ''AAAA''), (''AGAA'', ''AAAA''), (''ACAA'', ''AAAA''), (''AATA'', ''AAAA''),
      (''AAGA'', ''AAAA''), (''AACA'', ''AAAA''), (''AAAT'', ''AAAA''), (''AAAG'', ''AAAA''),
      (''AAAC'', ''AAAA'')]"

definition scenario_tagger :: "int dict option \<Rightarrow> ReadTagger" where
  "scenario_tagger st =
     \<lparr>bc_to_id = [(''AAAA'', ''BC1'')], len_linker = 2, self_len_primer = 4,
      stats = st, automaton = scenario_automaton, blacklist = []\<rparr>"

section \<open>Invariants used in the proofs\<close>

text \<open>
  The invariant of the loop over the barcodes in \<^verbatim>\<open>get_all_barcodes\<close>, for barcodes
  taken from \<open>V\<close>: both dicts have distinct keys, every blacklisted pattern is claimed in
  \<^verbatim>\<open>found\<close>, every claimed pattern is as long as the barcode that claims it, and every
  blacklist entry holds a pair together with its mirror image.
\<close>

definition index_inv :: "string set \<Rightarrow> index_state \<Rightarrow> bool" where
  "index_inv V = (\<lambda>(found, bl, warns).
      distinct (map fst found) \<and> distinct (map fst bl)
    \<and> (\<forall>p. map_of bl p \<noteq> None \<longrightarrow> map_of found p \<noteq> None)
    \<and> (\<forall>p v. map_of found p = Some v \<longrightarrow> length p = length v \<and> v \<in> V)
    \<and> (\<forall>p s a b. map_of bl p = Some s \<longrightarrow> (a, b) \<in> s \<longrightarrow> (b, a) \<in> s))"

text \<open>
  What construction establishes and \<^verbatim>\<open>tag_read\<close> relies on: every value stored in the
  automaton is as long as its key and is a key of \<^verbatim>\<open>bc_to_id\<close>, and the statistics, when
  kept, have a counter for every name in \<^verbatim>\<open>PREDS\<close>.
\<close>

definition wf_tagger :: "ReadTagger \<Rightarrow> bool" where
  "wf_tagger t =
     ((\<forall>p b. map_of (automaton t) p = Some b
          \<longrightarrow> length p = length b \<and> map_of (bc_to_id t) b \<noteq> None)
      \<and> (case stats t of None \<Rightarrow> True
          | Some st \<Rightarrow> \<forall>name \<in> fst ` set PREDS. map_of st name \<noteq> None))"

text \<open>
  Between two barcodes of the loop in \<^verbatim>\<open>get_all_barcodes\<close>, with \<open>V\<close> the barcodes seen
  so far: every claimed pattern belongs to one of them, every warning and every
  blacklisted pair names two different barcodes out of \<open>V\<close>, and the blacklist has an
  entry for exactly the patterns that were warned about.
\<close>

definition collisions_inv :: "string set \<Rightarrow> index_state \<Rightarrow> bool" where
  "collisions_inv V = (\<lambda>(found, bl, warns).
      (\<forall>p v. map_of found p = Some v \<longrightarrow> v \<in> V)
    \<and> (\<forall>p prev b. (p, prev, b) \<in> set warns \<longrightarrow> prev \<noteq> b \<and> prev \<in> V \<and> b \<in> V)
    \<and> (\<forall>p s a b. map_of bl p = Some s \<longrightarrow> (a, b) \<in> s \<longrightarrow> a \<noteq> b)
    \<and> fst ` set bl = fst ` set warns)"

text \<open>
  While the patterns of the next barcode \<open>bc\<close> are claimed, after those in \<open>D\<close>: a
  pattern in \<open>D\<close> belongs to \<open>bc\<close>, any other claimed pattern to a barcode in \<open>V\<close>.
\<close>

definition claiming_inv :: "string set \<Rightarrow> string \<Rightarrow> string set \<Rightarrow> index_state \<Rightarrow> bool" where
  "claiming_inv V bc D = (\<lambda>(found, bl, warns).
      (\<forall>p v. map_of found p = Some v \<longrightarrow> p \<in> D \<longrightarrow> v = bc)
    \<and> (\<forall>p v. map_of found p = Some v \<longrightarrow> p \<notin> D \<longrightarrow> v \<in> V)
    \<and> (\<forall>p prev b. (p, prev, b) \<in> set warns \<longrightarrow> prev \<noteq> b \<and> prev \<in> V \<and> b \<in> insert bc V)
    \<and> (\<forall>p s a b. map_of bl p = Some s \<longrightarrow> (a, b) \<in> s \<longrightarrow> a \<noteq> b)
    \<and> fst ` set bl = fst ` set warns)"

section \<open>Properties of the mismatch expansion\<close>

lemma length_bases_without: "c \<in> BASES \<Longrightarrow> length (bases_without c) = 3"
  by (auto simp: BASES_def bases_without_def)

lemma fst_get_mismatches_1:
  "fst (get_mismatches B 1) =
     B # concat (map (\<lambda>i. map (\<lambda>m. take i B @ m # drop (i + 1) B) (bases_without (B ! i)))
                     [0..<length B])"
  by (simp add: get_mismatches_def)

lemma pattern_length:
  "p \<in> set (fst (get_mismatches B m)) \<Longrightarrow> length p = length B"
  by (auto simp: get_mismatches_def split: if_splits)

lemma sum_list_const3:
  "(\<And>x. x \<in> set xs \<Longrightarrow> f x = (3::nat)) \<Longrightarrow> sum_list (map f xs) = 3 * length xs"
  by (induction xs) auto

text \<open>
  C2, as the code has it: iterating the expansion to its end raises exactly when the
  budget differs from 1. Whatever the budget, the barcode itself is yielded first; with
  a budget other than 1 (0 included) it is the only value yielded before the exception.
\<close>

theorem C2_raises_unless_one:
  "(snd (get_mismatches B m) \<noteq> None) = (m \<noteq> 1)
     \<and> (m \<noteq> 1 \<longrightarrow> get_mismatches B m = ([B], Some RaisedNotImplemented))
     \<and> hd (fst (get_mismatches B m)) = B"
  by (simp add: get_mismatches_def)

theorem C2_raises_unless_one_witness:
  "snd (get_mismatches ''AC'' 1) = None
     \<and> get_mismatches ''AC'' 2 = ([''AC''], Some RaisedNotImplemented)
     \<and> get_mismatches ''AC'' 0 = ([''AC''], Some RaisedNotImplemented)"
  using C2_raises_unless_one[of "''AC''" 1] C2_raises_unless_one[of "''AC''" 2]
    C2_raises_unless_one[of "''AC''" 0]
  by simp

text \<open>
  C2 as stated fails at budget 0: the expansion of \<open>AAAA\<close> yields the barcode and then
  raises.
\<close>

theorem C2_counterexample:
  "get_mismatches ''AAAA'' 0 = ([''AAAA''], Some RaisedNotImplemented)"
  by (simp add: get_mismatches_def)

text \<open>
  C7: for a barcode over the alphabet A, T, G, C the expansion with budget 1 ends
  without an exception, yields exactly \<open>1 + 3 * len(B)\<close> strings, each as long as the
  barcode, and yields the barcode itself first.
\<close>

theorem C7_expansion_size:
  assumes "set B \<subseteq> BASES"
  shows "length (fst (get_mismatches B 1)) = 1 + 3 * length B
       \<and> (\<forall>p \<in> set (fst (get_mismatches B 1)). length p = length B)
       \<and> hd (fst (get_mismatches B 1)) = B
       \<and> snd (get_mismatches B 1) = None"
proof -
  have "\<And>i. i \<in> set [0..<length B] \<Longrightarrow> length (bases_without (B ! i)) = 3"
    using assms by (auto intro!: length_bases_without)
  then have "sum_list (map (\<lambda>i. length (bases_without (B ! i))) [0..<length B]) = 3 * length B"
    using sum_list_const3[of "[0..<length B]" "\<lambda>i. length (bases_without (B ! i))"] by simp
  then have "length (fst (get_mismatches B 1)) = 1 + 3 * length B"
    by (simp add: fst_get_mismatches_1 length_concat comp_def)
  moreover have "\<forall>p \<in> set (fst (get_mismatches B 1)). length p = length B"
    using pattern_length by blast
  moreover have "hd (fst (get_mismatches B 1)) = B" "snd (get_mismatches B 1) = None"
    by (simp_all add: get_mismatches_def)
  ultimately show ?thesis by simp
qed

theorem C7_expansion_size_witness:
  "set ''GATC'' \<subseteq> BASES \<and> length (fst (get_mismatches ''GATC'' 1)) = 13
     \<and> hd (fst (get_mismatches ''GATC'' 1)) = ''GATC''"
  using C7_expansion_size[of "''GATC''"] by (simp add: BASES_def)

section \<open>Properties of the barcode index\<close>

lemma index_inv_empty: "index_inv V ([], [], [])"
  by (simp add: index_inv_def)

lemma claim_pattern_found:
  "fst (claim_pattern bc p (found, bl, warns)) = AList.update p bc found"
  by (simp add: claim_pattern_def Let_def)

lemma claim_pattern_bl:
  "fst (snd (claim_pattern bc p (found, bl, warns))) =
     (if truthy (map_of found p)
      then AList.update p (insert (bc, the (map_of found p)) (insert (the (map_of found p), bc)
             (case map_of bl p of None \<Rightarrow> {} | Some s \<Rightarrow> s))) bl
      else bl)"
  by (simp add: claim_pattern_def Let_def)

lemma index_inv_claim:
  assumes "index_inv V st" "length p = length bc" "bc \<in> V"
  shows "index_inv V (claim_pattern bc p st)"
proof -
  obtain found bl warns where st: "st = (found, bl, warns)" by (cases st) auto
  obtain found' bl' warns' where st': "claim_pattern bc p st = (found', bl', warns')"
    by (cases "claim_pattern bc p st") auto
  have f': "found' = AList.update p bc found"
    using claim_pattern_found[of bc p found bl warns] st st' by simp
  have b': "bl' = (if truthy (map_of found p)
      then AList.update p (insert (bc, the (map_of found p)) (insert (the (map_of found p), bc)
             (case map_of bl p of None \<Rightarrow> {} | Some s \<Rightarrow> s))) bl
      else bl)"
    using claim_pattern_bl[of bc p found bl warns] st st' by simp
  from assms(1) have d1: "distinct (map fst found)" and d2: "distinct (map fst bl)"
    and sub: "\<And>q. map_of bl q \<noteq> None \<Longrightarrow> map_of found q \<noteq> None"
    and len: "\<And>q v. map_of found q = Some v \<Longrightarrow> length q = length v \<and> v \<in> V"
    and sym: "\<And>q s a b. map_of bl q = Some s \<Longrightarrow> (a, b) \<in> s \<Longrightarrow> (b, a) \<in> s"
    unfolding st index_inv_def by (simp_all only: prod.case) blast+
  have 1: "distinct (map fst found')" using d1 by (simp add: f' distinct_update)
  have 2: "distinct (map fst bl')" using d2 by (simp add: b' distinct_update)
  have 3: "\<forall>q. map_of bl' q \<noteq> None \<longrightarrow> map_of found' q \<noteq> None"
    using sub by (auto simp: f' b' update_conv' split: if_splits)
  have 4: "\<forall>q v. map_of found' q = Some v \<longrightarrow> length q = length v \<and> v \<in> V"
    using len assms(2,3) by (auto simp: f' update_conv' split: if_splits)
  have 5: "\<forall>q s a b. map_of bl' q = Some s \<longrightarrow> (a, b) \<in> s \<longrightarrow> (b, a) \<in> s"
  proof (intro allI impI)
    fix q s a b assume q: "map_of bl' q = Some s" and ab: "(a, b) \<in> s"
    show "(b, a) \<in> s"
    proof (cases "truthy (map_of found p) \<and> q = p")
      case True
      then have "s = insert (bc, the (map_of found p)) (insert (the (map_of found p), bc)
             (case map_of bl p of None \<Rightarrow> {} | Some s \<Rightarrow> s))"
        using q by (simp add: b' update_conv')
      then show ?thesis using ab sym[of p] by (auto split: option.splits)
    next
      case False
      then have "map_of bl q = Some s" using q by (auto simp: b' update_conv' split: if_splits)
      then show ?thesis using sym ab by blast
    qed
  qed
  show ?thesis unfolding st' index_inv_def using 1 2 3 4 5 by simp
qed

lemma index_inv_fold:
  "index_inv V st \<Longrightarrow> bc \<in> V \<Longrightarrow> \<forall>p \<in> set ps. length p = length bc
     \<Longrightarrow> index_inv V (fold (claim_pattern bc) ps st)"
proof (induction ps arbitrary: st)
  case Nil
  then show ?case by simp
next
  case (Cons p ps)
  have "index_inv V (claim_pattern bc p st)"
    using Cons.prems by (intro index_inv_claim) auto
  then show ?case using Cons by simp
qed

lemma scan_barcodes_one:
  "scan_barcodes bcs 1 st =
     Inr (fold (\<lambda>bc. fold (claim_pattern bc) (fst (get_mismatches bc 1))) bcs st)"
  by (induction bcs arbitrary: st) (auto simp: get_mismatches_def)

lemma index_inv_scan_fold:
  "index_inv V st \<Longrightarrow> set bcs \<subseteq> V
     \<Longrightarrow> index_inv V (fold (\<lambda>bc. fold (claim_pattern bc) (fst (get_mismatches bc m))) bcs st)"
proof (induction bcs arbitrary: st)
  case Nil
  then show ?case by simp
next
  case (Cons bc bcs)
  have "index_inv V (fold (claim_pattern bc) (fst (get_mismatches bc m)) st)"
    using Cons.prems by (intro index_inv_fold) (auto simp: pattern_length)
  then show ?case using Cons by simp
qed

lemma scan_barcodes_cases:
  "scan_barcodes bcs m st = Inr st' \<Longrightarrow> bcs = [] \<and> st' = st \<or> m = 1"
  by (cases bcs) (auto simp: get_mismatches_def split: if_splits)

lemma index_inv_scan:
  assumes "scan_barcodes bcs m st = Inr st'" "index_inv V st" "set bcs \<subseteq> V"
  shows "index_inv V st'"
proof -
  from scan_barcodes_cases[OF assms(1)] show ?thesis
  proof
    assume "bcs = [] \<and> st' = st" then show ?thesis using assms(2) by simp
  next
    assume "m = 1"
    then show ?thesis
      using assms index_inv_scan_fold[of V st bcs 1] by (simp add: scan_barcodes_one)
  qed
qed

lemma filter_delete:
  "filter (\<lambda>(k', v). k' \<notin> set ks) (AList.delete k found)
     = filter (\<lambda>(k', v). k' \<notin> set (k # ks)) found"
  by (induction found) auto

lemma del_patterns_filter:
  "distinct ks \<Longrightarrow> \<forall>k \<in> set ks. map_of found k \<noteq> None
     \<Longrightarrow> del_patterns ks found = Inr (filter (\<lambda>(k, v). k \<notin> set ks) found)"
proof (induction ks arbitrary: found)
  case Nil
  then show ?case by simp
next
  case (Cons k ks)
  have "\<forall>k' \<in> set ks. map_of (AList.delete k found) k' \<noteq> None"
    using Cons.prems by (auto simp: delete_conv')
  then have "del_patterns ks (AList.delete k found)
               = Inr (filter (\<lambda>(k, v). k \<notin> set ks) (AList.delete k found))"
    using Cons by simp
  moreover have "map_of found k \<noteq> None" using Cons.prems by auto
  ultimately show ?case by (simp add: filter_delete del: set_simps)
qed

lemma get_all_barcodes_result:
  assumes "scan_barcodes bcs m ([], [], []) = Inr (found, bl, warns)"
  shows "get_all_barcodes bcs m = Inr (filter (\<lambda>(k, v). k \<notin> fst ` set bl) found, bl, warns)"
proof -
  have "index_inv (set bcs) (found, bl, warns)"
    using index_inv_scan[OF assms index_inv_empty] by simp
  then have "distinct (map fst bl)" "\<forall>k \<in> set (map fst bl). map_of found k \<noteq> None"
    by (auto simp: index_inv_def map_of_eq_None_iff)
  then have "del_patterns (map fst bl) found
               = Inr (filter (\<lambda>(k, v). k \<notin> set (map fst bl)) found)"
    by (rule del_patterns_filter)
  then show ?thesis using assms by (simp add: get_all_barcodes_def)
qed

lemma get_all_barcodes_Inr:
  assumes "get_all_barcodes bcs m = Inr (found', bl, warns)"
  obtains found where "scan_barcodes bcs m ([], [], []) = Inr (found, bl, warns)"
    and "found' = filter (\<lambda>(k, v). k \<notin> fst ` set bl) found"
    and "index_inv (set bcs) (found, bl, warns)"
proof -
  from assms obtain found where s: "scan_barcodes bcs m ([], [], []) = Inr (found, bl, warns)"
    by (auto simp: get_all_barcodes_def split: sum.splits)
  moreover have "found' = filter (\<lambda>(k, v). k \<notin> fst ` set bl) found"
    using get_all_barcodes_result[OF s] assms by simp
  moreover have "index_inv (set bcs) (found, bl, warns)"
    using index_inv_scan[OF s index_inv_empty] by simp
  ultimately show ?thesis using that by blast
qed

lemma get_all_barcodes_one_succeeds:
  "\<exists>found bl warns. get_all_barcodes bcs 1 = Inr (found, bl, warns)"
proof -
  obtain found bl warns where
    "fold (\<lambda>bc. fold (claim_pattern bc) (fst (get_mismatches bc 1))) bcs ([], [], [])
       = (found, bl, warns)"
    using prod_cases3 by blast
  then have "scan_barcodes bcs 1 ([], [], []) = Inr (found, bl, warns)"
    by (simp add: scan_barcodes_one)
  then show ?thesis using get_all_barcodes_result by blast
qed

text \<open>
  C6: with budget 1, \<^verbatim>\<open>get_all_barcodes\<close> returns for every list of barcodes (no
  \<^verbatim>\<open>del\<close> raises); no key of the returned pattern map is a key of the blacklist, and
  every pair set in the blacklist contains \<open>(a, b)\<close> exactly when it contains \<open>(b, a)\<close>.
\<close>

theorem C6_disjoint_symmetric:
  "\<exists>found bl warns. get_all_barcodes barcodes 1 = Inr (found, bl, warns)
     \<and> fst ` set found \<inter> fst ` set bl = {}
     \<and> (\<forall>(p, s) \<in> set bl. \<forall>a b. ((a, b) \<in> s) = ((b, a) \<in> s))"
proof -
  obtain found' bl warns where g: "get_all_barcodes barcodes 1 = Inr (found', bl, warns)"
    using get_all_barcodes_one_succeeds by blast
  from g obtain found where f: "found' = filter (\<lambda>(k, v). k \<notin> fst ` set bl) found"
    and inv: "index_inv (set barcodes) (found, bl, warns)"
    by (rule get_all_barcodes_Inr)
  have "fst ` set found' \<inter> fst ` set bl = {}"
    unfolding f by force
  moreover have "\<forall>(p, s) \<in> set bl. \<forall>a b. ((a, b) \<in> s) = ((b, a) \<in> s)"
  proof (clarify)
    fix p s a b assume "(p, s) \<in> set bl"
    then have "map_of bl p = Some s" using inv by (simp add: index_inv_def)
    then show "((a, b) \<in> s) = ((b, a) \<in> s)" using inv unfolding index_inv_def by blast
  qed
  ultimately show ?thesis using g by blast
qed

theorem C6_disjoint_symmetric_witness:
  "get_all_barcodes [''AC'', ''AT''] 1 =
     Inr ([(''TC'', ''AC''), (''GC'', ''AC''), (''CC'', ''AC''),
           (''TT'', ''AT''), (''GT'', ''AT''), (''CT'', ''AT'')],
          [(''AT'', {(''AT'', ''AC''), (''AC'', ''AT'')}), (''AA'', {(''AT'', ''AC''), (''AC'', ''AT'')}),
           (''AG'', {(''AT'', ''AC''), (''AC'', ''AT'')}), (''AC'', {(''AT'', ''AC''), (''AC'', ''AT'')})],
          [(''AT'', ''AC'', ''AT''), (''AA'', ''AC'', ''AT''),
           (''AG'', ''AC'', ''AT''), (''AC'', ''AC'', ''AT'')])"
  using C6_disjoint_symmetric[of "[''AC'', ''AT'']"]
  by (simp add: get_all_barcodes_def get_mismatches_def bases_without_def claim_pattern_def
        truthy_def Let_def)

section \<open>Properties of the matcher and of construction\<close>

lemma map_of_add_word:
  "map_of (add_word p b A) k = Some v \<Longrightarrow> (k = p \<and> v = b) \<or> map_of A k = Some v"
  by (auto simp: add_word_def update_conv' split: if_splits)

lemma map_of_fold_add_word:
  "map_of (fold (\<lambda>(p, b). add_word p b) xs A) k = Some v
     \<Longrightarrow> (k, v) \<in> set xs \<or> map_of A k = Some v"
proof (induction xs arbitrary: A)
  case Nil
  then show ?case by simp
next
  case (Cons x xs)
  obtain p b where x: "x = (p, b)" by (cases x) auto
  from Cons.prems have "map_of (fold (\<lambda>(p, b). add_word p b) xs (add_word p b A)) k = Some v"
    by (simp add: x)
  from Cons.IH[OF this] show ?case
    using map_of_add_word[of p b A k v] by (auto simp: x)
qed

lemma in_concat_map: "x \<in> set (concat (map f xs)) \<longleftrightarrow> (\<exists>y \<in> set xs. x \<in> set (f y))"
  by auto

lemma automaton_iter_set:
  "set (automaton_iter A text) =
     {(e, v). e < length text \<and> (\<exists>s\<le>e. map_of A (take (Suc e - s) (drop s text)) = Some v)}"
proof -
  have g: "x \<in> set (case map_of A (take (Suc e - s) (drop s text)) of None \<Rightarrow> [] | Some v \<Rightarrow> [(e, v)])
          \<longleftrightarrow> fst x = e \<and> map_of A (take (Suc e - s) (drop s text)) = Some (snd x)" for e s x
    by (cases x) (auto split: option.splits)
  have "x \<in> set (automaton_iter A text)
          \<longleftrightarrow> fst x < length text
              \<and> (\<exists>s\<le>fst x. map_of A (take (Suc (fst x) - s) (drop s text)) = Some (snd x))" for x
    unfolding automaton_iter_def in_concat_map g set_upt Bex_def atLeastLessThan_iff less_Suc_eq_le
    by auto
  then show ?thesis by auto
qed

lemma automaton_iter_member:
  "(e, v) \<in> set (automaton_iter A text)
     \<Longrightarrow> e < length text \<and> (\<exists>s\<le>e. map_of A (take (Suc e - s) (drop s text)) = Some v)"
  by (simp add: automaton_iter_set)

lemma automaton_iter_intro:
  "e < length text \<Longrightarrow> s \<le> e \<Longrightarrow> map_of A (take (Suc e - s) (drop s text)) = Some v
     \<Longrightarrow> (e, v) \<in> set (automaton_iter A text)"
  by (auto simp: automaton_iter_set)

lemma ReadTagger_init_wf:
  assumes "ReadTagger_init bc_ids ll lp m us = Inr (t, w)"
  shows "wf_tagger t"
proof -
  from assms obtain found' bl where g: "get_all_barcodes (map fst bc_ids) m = Inr (found', bl, w)"
    and t: "t = \<lparr>bc_to_id = bc_ids, len_linker = ll, self_len_primer = lp,
                stats = (if \<not> us then None else Some initial_stats),
                automaton = fold (\<lambda>(pattern, bc). add_word pattern bc) found' [],
                blacklist = bl\<rparr>"
    by (auto simp: ReadTagger_init_def split: sum.splits)
  from g obtain found where f: "found' = filter (\<lambda>(k, v). k \<notin> fst ` set bl) found"
    and inv: "index_inv (set (map fst bc_ids)) (found, bl, w)"
    by (rule get_all_barcodes_Inr)
  have "length p = length b \<and> map_of bc_ids b \<noteq> None" if "map_of (automaton t) p = Some b" for p b
  proof -
    from that have "(p, b) \<in> set found'"
      using map_of_fold_add_word[of found' "[]" p b] by (simp add: t)
    then have "(p, b) \<in> set found" by (simp add: f)
    then have "map_of found p = Some b" using inv by (simp add: index_inv_def)
    then have "length p = length b" "b \<in> set (map fst bc_ids)"
      using inv unfolding index_inv_def by blast+
    then show ?thesis by (simp add: map_of_eq_None_iff)
  qed
  moreover have "case stats t of None \<Rightarrow> True
                 | Some st \<Rightarrow> \<forall>name \<in> fst ` set PREDS. map_of st name \<noteq> None"
    by (simp add: t PREDS_def initial_stats_def)
  ultimately show ?thesis by (simp add: wf_tagger_def t)
qed

lemma search_barcode_member:
  assumes "wf_tagger t" "(bs, be, bc) \<in> set (search_barcode t text)"
  shows "\<exists>a b. bs = int a \<and> be = int b \<and> a < b \<and> b \<le> length text
            \<and> b - a = length bc \<and> map_of (bc_to_id t) bc \<noteq> None
            \<and> map_of (automaton t) (take (b - a) (drop a text)) = Some bc"
proof -
  from assms(2) obtain e where e: "(e, bc) \<in> set (automaton_iter (automaton t) text)"
    and bs: "bs = int e - int (length bc) + 1" and be: "be = int e + 1"
    by (auto simp: search_barcode_def)
  from automaton_iter_member[OF e] obtain s where el: "e < length text" and se: "s \<le> e"
    and m: "map_of (automaton t) (take (Suc e - s) (drop s text)) = Some bc"
    by blast
  from assms(1) m have "length (take (Suc e - s) (drop s text)) = length bc"
    and k: "map_of (bc_to_id t) bc \<noteq> None"
    unfolding wf_tagger_def by blast+
  then have len: "length bc = Suc e - s" using el se by simp
  have "bs = int s" using bs len se by simp
  moreover have "be = int (Suc e)" using be by simp
  moreover have "s < Suc e" "Suc e \<le> length text" using se el by simp_all
  ultimately show ?thesis using len k m by (intro exI[of _ s] exI[of _ "Suc e"]) simp
qed

lemma fst_set_fold_update:
  "fst ` set (fold (\<lambda>m. AList.update m v) ms acc) = set ms \<union> fst ` set acc"
  by (induction ms arbitrary: acc) (auto simp: dom_update)

lemma set_ordered_matches: "set (ordered_matches ms) = set ms"
  using fst_set_fold_update[of "()" ms "[]"] by (simp add: ordered_matches_def)

lemma lookup_ids_succeeds:
  "\<forall>(bs, be, bc) \<in> set ms. map_of d bc \<noteq> None \<Longrightarrow> \<exists>ids. lookup_ids d ms = Inr ids"
  by (induction d ms rule: lookup_ids.induct) auto

lemma count_preds_succeeds:
  "\<forall>name \<in> fst ` set ps. map_of st name \<noteq> None
     \<Longrightarrow> \<exists>st'. count_preds ps r st = Inr st' \<and> (\<forall>name. (map_of st' name \<noteq> None) = (map_of st name \<noteq> None))"
proof (induction ps r st rule: count_preds.induct)
  case (1 r st)
  then show ?case by simp
next
  case (2 name pred ps r st)
  show ?case
  proof (cases "pred r")
    case True
    from "2.prems" obtain n where n: "map_of st name = Some n" by force
    have "\<forall>k \<in> fst ` set ps. map_of (AList.update name (n + 1) st) k \<noteq> None"
      using "2.prems" by (auto simp: update_conv')
    from "2.IH"(1)[OF True n this] obtain st' where
      "count_preds ps r (AList.update name (n + 1) st) = Inr st'"
      "\<forall>k. (map_of st' k \<noteq> None) = (map_of (AList.update name (n + 1) st) k \<noteq> None)"
      by blast
    then show ?thesis using True n by (auto simp: update_conv')
  next
    case False
    then show ?thesis using 2 by auto
  qed
qed

lemma record_stats_succeeds:
  assumes "wf_tagger t"
  shows "\<exists>t'. record_stats t r = Inr (r, t') \<and> wf_tagger t'
            \<and> bc_to_id t' = bc_to_id t \<and> automaton t' = automaton t
            \<and> len_linker t' = len_linker t \<and> self_len_primer t' = self_len_primer t
            \<and> blacklist t' = blacklist t \<and> (stats t' = None) = (stats t = None)"
proof (cases "stats t")
  case None
  then show ?thesis using assms by (simp add: record_stats_def)
next
  case (Some st)
  then have "\<forall>name \<in> fst ` set PREDS. map_of st name \<noteq> None"
    using assms by (simp add: wf_tagger_def)
  from count_preds_succeeds[OF this, of r] obtain st' where
    c: "count_preds PREDS r st = Inr st'"
    and k: "\<forall>name. (map_of st' name \<noteq> None) = (map_of st name \<noteq> None)"
    by blast
  have "wf_tagger (t\<lparr>stats := Some st'\<rparr>)"
    using assms Some k by (simp add: wf_tagger_def)
  then show ?thesis using Some c by (simp add: record_stats_def)
qed

section \<open>Properties of \<^verbatim>\<open>tag_read\<close>\<close>

lemma record_stats_Inr: "record_stats t r = Inr (r', t') \<Longrightarrow> r' = r"
  by (auto simp: record_stats_def split: option.splits sum.splits)


lemma tag_read_Inr_words: "tag_read t hdr s q = Inr x \<Longrightarrow> automaton t \<noteq> []"
  by (auto simp: tag_read_def iter_error_def split: if_splits)

lemma tag_read_Nil:
  "automaton t \<noteq> [] \<Longrightarrow> ordered_matches (search_barcode t s) = [] \<Longrightarrow>
   tag_read t hdr s q = record_stats t
     \<lparr>header = hdr, qual = q, len_primer = self_len_primer t,
      junk = None, barcode = None, linker = None, amplicon = s,
      other_barcodes = {}, barcode_mismatch = False\<rparr>"
  by (simp add: tag_read_def iter_error_def)

lemma tag_read_Cons_Inl:
  "automaton t \<noteq> [] \<Longrightarrow> ordered_matches (search_barcode t s) = (bs, be, bc) # rest \<Longrightarrow>
   lookup_ids (bc_to_id t) rest = Inl e \<Longrightarrow> tag_read t hdr s q = Inl e"
  by (simp add: tag_read_def iter_error_def)

lemma tag_read_Cons:
  "automaton t \<noteq> [] \<Longrightarrow> ordered_matches (search_barcode t s) = (bs, be, bc) # rest \<Longrightarrow>
   lookup_ids (bc_to_id t) rest = Inr ids \<Longrightarrow>
   tag_read t hdr s q = record_stats t
     \<lparr>header = hdr, qual = q, len_primer = self_len_primer t,
      junk = (if py_slice s None (Some bs) = [] then None else Some (py_slice s None (Some bs))),
      barcode = map_of (bc_to_id t) bc,
      linker = Some (py_slice s (Some be) (if be \<noteq> 0 then Some (be + len_linker t) else None)),
      amplicon = py_slice s (if be \<noteq> 0 then Some (be + len_linker t) else None) None,
      other_barcodes = set ids - set_option (map_of (bc_to_id t) bc),
      barcode_mismatch = (py_slice s (Some bs) (Some be) \<noteq> bc)\<rparr>"
  by (simp add: tag_read_def iter_error_def Let_def)

lemma tag_read_no_match:
  assumes "tag_read t hdr s q = Inr (r, t')" "ordered_matches (search_barcode t s) = []"
  shows "r = \<lparr>header = hdr, qual = q, len_primer = self_len_primer t,
              junk = None, barcode = None, linker = None, amplicon = s,
              other_barcodes = {}, barcode_mismatch = False\<rparr>"
proof -
  define R where "R = \<lparr>header = hdr, qual = q, len_primer = self_len_primer t,
              junk = None, barcode = None, linker = None, amplicon = s,
              other_barcodes = {}, barcode_mismatch = False\<rparr>"
  have ne: "automaton t \<noteq> []" using assms(1) by (rule tag_read_Inr_words)
  have "record_stats t R = Inr (r, t')"
    using assms(1) tag_read_Nil[OF ne assms(2), of hdr q] by (simp add: R_def)
  then have "r = R" by (rule record_stats_Inr)
  then show ?thesis by (simp add: R_def)
qed

lemma tag_read_match:
  assumes "tag_read t hdr s q = Inr (r, t')"
    "ordered_matches (search_barcode t s) = (bs, be, bc) # rest"
  shows "\<exists>ids. lookup_ids (bc_to_id t) rest = Inr ids
           \<and> r = \<lparr>header = hdr, qual = q, len_primer = self_len_primer t,
                  junk = (if py_slice s None (Some bs) = [] then None
                          else Some (py_slice s None (Some bs))),
                  barcode = map_of (bc_to_id t) bc,
                  linker = Some (py_slice s (Some be)
                                  (if be \<noteq> 0 then Some (be + len_linker t) else None)),
                  amplicon = py_slice s (if be \<noteq> 0 then Some (be + len_linker t) else None) None,
                  other_barcodes = set ids - set_option (map_of (bc_to_id t) bc),
                  barcode_mismatch = (py_slice s (Some bs) (Some be) \<noteq> bc)\<rparr>"
proof (cases "lookup_ids (bc_to_id t) rest")
  case (Inl e)
  have ne: "automaton t \<noteq> []" using assms(1) by (rule tag_read_Inr_words)
  show ?thesis using assms(1) tag_read_Cons_Inl[OF ne assms(2) Inl, of hdr q] by simp
next
  case (Inr ids)
  have ne: "automaton t \<noteq> []" using assms(1) by (rule tag_read_Inr_words)
  define R where "R = \<lparr>header = hdr, qual = q, len_primer = self_len_primer t,
                  junk = (if py_slice s None (Some bs) = [] then None
                          else Some (py_slice s None (Some bs))),
                  barcode = map_of (bc_to_id t) bc,
                  linker = Some (py_slice s (Some be)
                                  (if be \<noteq> 0 then Some (be + len_linker t) else None)),
                  amplicon = py_slice s (if be \<noteq> 0 then Some (be + len_linker t) else None) None,
                  other_barcodes = set ids - set_option (map_of (bc_to_id t) bc),
                  barcode_mismatch = (py_slice s (Some bs) (Some be) \<noteq> bc)\<rparr>"
  have "tag_read t hdr s q = record_stats t R"
    unfolding R_def by (rule tag_read_Cons[OF ne assms(2) Inr])
  then have "record_stats t R = Inr (r, t')" using assms(1) by simp
  then have "r = R" by (rule record_stats_Inr)
  then show ?thesis unfolding R_def using Inr by (intro exI[of _ ids] conjI) simp_all
qed

lemma tag_read_succeeds:
  assumes "wf_tagger t" and ne: "automaton t \<noteq> []"
  shows "\<exists>r t'. tag_read t hdr s q = Inr (r, t') \<and> wf_tagger t'
            \<and> bc_to_id t' = bc_to_id t \<and> automaton t' = automaton t
            \<and> len_linker t' = len_linker t \<and> self_len_primer t' = self_len_primer t
            \<and> blacklist t' = blacklist t \<and> (stats t' = None) = (stats t = None)"
proof -
  have "\<exists>R. tag_read t hdr s q = record_stats t R"
  proof (cases "ordered_matches (search_barcode t s)")
    case Nil
    show ?thesis using tag_read_Nil[OF ne Nil, of hdr q] by (rule exI)
  next
    case (Cons m rest)
    obtain bs be bc where m: "m = (bs, be, bc)" by (cases m) auto
    have "set rest \<subseteq> set (search_barcode t s)"
      using Cons set_ordered_matches[of "search_barcode t s"] by auto
    then have "\<forall>(bs, be, bc) \<in> set rest. map_of (bc_to_id t) bc \<noteq> None"
      using search_barcode_member[OF assms(1)] by blast
    from lookup_ids_succeeds[OF this] obtain ids where l: "lookup_ids (bc_to_id t) rest = Inr ids"
      by blast
    show ?thesis using tag_read_Cons[OF ne Cons[unfolded m] l, of hdr q] by (rule exI)
  qed
  then obtain R where R: "tag_read t hdr s q = record_stats t R" by (rule exE)
  from record_stats_succeeds[OF assms(1), of R] obtain t' where
    "record_stats t R = Inr (R, t')" "wf_tagger t'"
    "bc_to_id t' = bc_to_id t" "automaton t' = automaton t"
    "len_linker t' = len_linker t" "self_len_primer t' = self_len_primer t"
    "blacklist t' = blacklist t" "(stats t' = None) = (stats t = None)"
    by (elim exE conjE)
  then show ?thesis unfolding R by (intro exI[of _ R] exI[of _ t'] conjI)
qed

lemma tag_reads_succeeds:
  "wf_tagger t \<Longrightarrow> automaton t \<noteq> []
     \<Longrightarrow> \<exists>rs t'. tag_reads t reads = Inr (rs, t') \<and> length rs = length reads \<and> wf_tagger t'"
proof (induction reads arbitrary: t)
  case Nil
  then show ?case by simp
next
  case (Cons rd reads)
  obtain hdr s q where rd: "rd = (hdr, s, q)" by (cases rd) auto
  from tag_read_succeeds[OF Cons.prems, of hdr s q] obtain r t1 where
    1: "tag_read t hdr s q = Inr (r, t1)" and w1: "wf_tagger t1"
    and a1: "automaton t1 = automaton t" by blast
  have n1: "automaton t1 \<noteq> []" using Cons.prems(2) by (simp add: a1)
  from Cons.IH[OF w1 n1] obtain rs t2 where
    "tag_reads t1 reads = Inr (rs, t2)" "length rs = length reads" "wf_tagger t2" by blast
  then show ?case using 1 by (simp add: rd)
qed

lemma tag_reads_length: "tag_reads t reads = Inr (rs, t') \<Longrightarrow> length rs = length reads"
proof (induction reads arbitrary: t rs)
  case Nil
  then show ?case by simp
next
  case (Cons rd reads)
  obtain hdr s q where rd: "rd = (hdr, s, q)" by (cases rd) auto
  from Cons.prems obtain r t1 rs1 where "tag_reads t1 reads = Inr (rs1, t')" "rs = r # rs1"
    by (auto simp: rd split: sum.splits)
  then show ?case using Cons.IH by auto
qed


section \<open>Segments of a tagged read\<close>

lemma py_slice_to: "py_slice s None (Some (int a)) = take a s"
  by (simp add: py_slice_def slice_index_def min_def Let_def)

lemma py_slice_from: "py_slice s (Some (int a)) None = drop a s"
  by (simp add: py_slice_def slice_index_def min_def Let_def)

lemma py_slice_between: "py_slice s (Some (int a)) (Some (int b)) = take (b - a) (drop a s)"
  by (simp add: py_slice_def slice_index_def min_def Let_def)

lemma segments_append:
  assumes "a \<le> b" "b \<le> c"
  shows "take a s @ take (b - a) (drop a s) @ take (c - b) (drop b s) @ drop c s = s"
proof -
  have 1: "take (c - b) (drop b s) @ drop c s = drop b s"
    using assms(2) by (metis append_take_drop_id drop_drop le_add_diff_inverse2)
  have 2: "take (b - a) (drop a s) @ drop b s = drop a s"
    using assms(1) by (metis append_take_drop_id drop_drop le_add_diff_inverse2)
  show ?thesis by (simp add: 1 2)
qed

lemma py_slice_Nil_iff: "py_slice s (Some (int a)) None = [] \<longleftrightarrow> length s \<le> a"
  by (simp add: py_slice_from)

text \<open>
  The first match of a constructed tagger: a span inside the read, of the length of the
  barcode it reports.
\<close>

lemma first_match_span:
  assumes "wf_tagger t" "ordered_matches (search_barcode t s) = (bs, be, bc) # rest"
  shows "\<exists>a b. bs = int a \<and> be = int b \<and> a < b \<and> b \<le> length s \<and> b - a = length bc
            \<and> map_of (bc_to_id t) bc \<noteq> None"
proof -
  have "(bs, be, bc) \<in> set (search_barcode t s)"
    using assms(2) set_ordered_matches[of "search_barcode t s"] by auto
  from search_barcode_member[OF assms(1) this] show ?thesis by blast
qed

lemma wf_tagger_stats: "wf_tagger t \<Longrightarrow> wf_tagger (t\<lparr>stats := None\<rparr>)"
  by (simp add: wf_tagger_def)

text \<open>
  C9: the segments of a tagged read spell the read. The tagger is one that
  \<^verbatim>\<open>ReadTagger.__init__\<close> built with a linker length that is not negative, whatever its
  statistics have become since; when a first match exists, junk (or the empty string),
  the matched span, the linker and the amplicon concatenate to the sequence, and
  otherwise the amplicon is the sequence.
\<close>

theorem C9_segments_spell_read:
  assumes "ReadTagger_init bc_ids ll lp m us = Inr (t0, w)" "0 \<le> ll"
    and "t = t0\<lparr>stats := st\<rparr>"
    and "tag_read t hdr s q = Inr (r, t')"
  shows "case ordered_matches (search_barcode t s) of
           [] \<Rightarrow> amplicon r = s
         | (bc_start, bc_end, bc) # _ \<Rightarrow>
             (case junk r of None \<Rightarrow> [] | Some j \<Rightarrow> j)
               @ py_slice s (Some bc_start) (Some bc_end)
               @ (case linker r of None \<Rightarrow> [] | Some l \<Rightarrow> l)
               @ amplicon r = s"
proof (cases "ordered_matches (search_barcode t s)")
  case Nil
  then show ?thesis using tag_read_no_match[OF assms(4) Nil] by simp
next
  case (Cons mt rest)
  obtain bs be bc where mt: "mt = (bs, be, bc)" by (cases mt) auto
  have wf0: "wf_tagger t0" using assms(1) by (rule ReadTagger_init_wf)
  have s0: "search_barcode t s = search_barcode t0 s"
    by (simp add: assms(3) search_barcode_def)
  have ll: "len_linker t = ll"
    using assms(1,3) by (auto simp: ReadTagger_init_def split: sum.splits)
  from first_match_span[OF wf0 Cons[unfolded mt s0]] obtain a b where
    ab: "bs = int a" "be = int b" "a < b" "b \<le> length s" by blast
  from tag_read_match[OF assms(4) Cons[unfolded mt]] obtain ids where
    r: "r = \<lparr>header = hdr, qual = q, len_primer = self_len_primer t,
                  junk = (if py_slice s None (Some bs) = [] then None
                          else Some (py_slice s None (Some bs))),
                  barcode = map_of (bc_to_id t) bc,
                  linker = Some (py_slice s (Some be)
                                  (if be \<noteq> 0 then Some (be + len_linker t) else None)),
                  amplicon = py_slice s (if be \<noteq> 0 then Some (be + len_linker t) else None) None,
                  other_barcodes = set ids - set_option (map_of (bc_to_id t) bc),
                  barcode_mismatch = (py_slice s (Some bs) (Some be) \<noteq> bc)\<rparr>"
    by blast
  define c where "c = b + nat ll"
  have le: "be + len_linker t = int c" "be \<noteq> 0" "b \<le> c"
    using ab assms(2) by (simp_all add: c_def ll)
  have j: "(case junk r of None \<Rightarrow> [] | Some j \<Rightarrow> j) = take a s"
    by (simp add: r ab py_slice_to)
  have l: "(case linker r of None \<Rightarrow> [] | Some l \<Rightarrow> l) = take (c - b) (drop b s)"
    by (simp add: r le ab(2)[symmetric] py_slice_between[symmetric])
  have am: "amplicon r = drop c s"
    by (simp add: r le py_slice_from)
  have "take a s @ take (b - a) (drop a s) @ take (c - b) (drop b s) @ drop c s = s"
    using ab(3) le(3) by (intro segments_append) simp_all
  then show ?thesis
    by (simp add: Cons mt j l am ab py_slice_between)
qed


text \<open>
  C4, as the code has it: the amplicon is a string, the rest of the read behind the
  linker window (the whole read when no barcode was found), and it is empty exactly when
  the read ends inside or at the end of that window (or, without a barcode, when the
  read is empty).
\<close>

theorem C4_amplicon_is_remainder:
  assumes "ReadTagger_init bc_ids ll lp m us = Inr (t0, w)" "0 \<le> ll"
    and "t = t0\<lparr>stats := st\<rparr>"
    and "tag_read t hdr s q = Inr (r, t')"
  shows "case ordered_matches (search_barcode t s) of
           [] \<Rightarrow> amplicon r = s
         | (bc_start, bc_end, bc) # _ \<Rightarrow>
             amplicon r = drop (nat (bc_end + ll)) s
               \<and> (amplicon r \<noteq> [] \<longleftrightarrow> bc_end + ll < int (length s))"
proof (cases "ordered_matches (search_barcode t s)")
  case Nil
  then show ?thesis using tag_read_no_match[OF assms(4) Nil] by simp
next
  case (Cons mt rest)
  obtain bs be bc where mt: "mt = (bs, be, bc)" by (cases mt) auto
  have wf0: "wf_tagger t0" using assms(1) by (rule ReadTagger_init_wf)
  have s0: "search_barcode t s = search_barcode t0 s"
    by (simp add: assms(3) search_barcode_def)
  have ll: "len_linker t = ll"
    using assms(1,3) by (auto simp: ReadTagger_init_def split: sum.splits)
  from first_match_span[OF wf0 Cons[unfolded mt s0]] obtain a b where
    ab: "bs = int a" "be = int b" "a < b" "b \<le> length s" by blast
  from tag_read_match[OF assms(4) Cons[unfolded mt]]
  have am: "amplicon r = py_slice s (if be \<noteq> 0 then Some (be + len_linker t) else None) None"
    by auto
  define c where "c = b + nat ll"
  have le: "be + len_linker t = int c" "be \<noteq> 0" "nat (be + ll) = c"
    using ab assms(2) by (simp_all add: c_def ll)
  have "amplicon r = drop c s"
    by (simp add: am le py_slice_from)
  moreover have "be + ll < int (length s) \<longleftrightarrow> c < length s"
    using le(1) ll by simp
  ultimately show ?thesis
    by (simp add: Cons mt le(3) not_le)
qed

section \<open>The scan finds every indexed pattern\<close>

lemma map_of_fold_add_word_other:
  "k \<notin> fst ` set xs \<Longrightarrow> map_of (fold (\<lambda>(p, b). add_word p b) xs A) k = map_of A k"
proof (induction xs arbitrary: A)
  case Nil
  then show ?case by simp
next
  case (Cons x xs)
  obtain p b where x: "x = (p, b)" by (cases x) auto
  have "map_of (add_word p b A) k = map_of A k"
    using Cons.prems by (simp add: x add_word_def update_conv')
  then show ?case using Cons by (simp add: x)
qed

lemma map_of_fold_add_word_Some:
  "distinct (map fst xs) \<Longrightarrow> (k, v) \<in> set xs \<Longrightarrow> k \<noteq> []
     \<Longrightarrow> map_of (fold (\<lambda>(p, b). add_word p b) xs A) k = Some v"
proof (induction xs arbitrary: A)
  case Nil
  then show ?case by simp
next
  case (Cons x xs)
  obtain p b where x: "x = (p, b)" by (cases x) auto
  show ?case
  proof (cases "(k, v) = (p, b)")
    case True
    then have "k \<notin> fst ` set xs" using Cons.prems(1) by (simp add: x)
    then have "map_of (fold (\<lambda>(p, b). add_word p b) xs (add_word p b A)) k
                 = map_of (add_word p b A) k"
      by (rule map_of_fold_add_word_other)
    also have "\<dots> = Some v"
      using True Cons.prems(3) by (simp add: add_word_def update_conv')
    finally show ?thesis by (simp add: x)
  next
    case False
    then have "(k, v) \<in> set xs" using Cons.prems(2) by (auto simp: x)
    then show ?thesis using Cons.IH Cons.prems by (simp add: x)
  qed
qed

text \<open>
  C5: a key \<open>P\<close> of the final pattern map is no key of the blacklist, and wherever
  \<open>P\<close> occurs in a read, at offset \<open>i\<close>, the scan yields the triple
  \<open>(i, i + len(P), map[P])\<close>, which is also among the de-duplicated matches. Barcode
  sequences are not empty.
\<close>

theorem C5_scan_finds_pattern:
  assumes "ReadTagger_init bc_ids ll lp m us = Inr (t, w)"
    and "get_all_barcodes (map fst bc_ids) m = Inr (pattern_map, bl, w')"
    and "map_of pattern_map P = Some b"
    and "[] \<notin> fst ` set bc_ids"
  shows "(int (length pre), int (length pre) + int (length P), b)
           \<in> set (search_barcode t (pre @ P @ post))
       \<and> (int (length pre), int (length pre) + int (length P), b)
           \<in> set (ordered_matches (search_barcode t (pre @ P @ post)))
       \<and> P \<notin> fst ` set (blacklist t)"
proof -
  from assms(1,2) have t: "automaton t = fold (\<lambda>(pattern, bc). add_word pattern bc) pattern_map []"
    and blt: "blacklist t = bl"
    by (auto simp: ReadTagger_init_def split: sum.splits)
  from assms(2) obtain found where f: "pattern_map = filter (\<lambda>(k, v). k \<notin> fst ` set bl) found"
    and inv: "index_inv (set (map fst bc_ids)) (found, bl, w')"
    by (rule get_all_barcodes_Inr)
  have Pb: "(P, b) \<in> set pattern_map" using assms(3) by (rule map_of_SomeD)
  then have Pf: "(P, b) \<in> set found" and Pbl: "P \<notin> fst ` set bl" by (auto simp: f)
  have df: "distinct (map fst found)" using inv by (simp add: index_inv_def)
  then have dm: "distinct (map fst pattern_map)" unfolding f by (rule distinct_map_filter)
  have "map_of found P = Some b" using Pf df by simp
  then have len: "length P = length b" and "b \<in> set (map fst bc_ids)"
    using inv unfolding index_inv_def by blast+
  then have "b \<noteq> []" using assms(4) by force
  then have ne: "P \<noteq> []" using len by auto
  have A: "map_of (automaton t) P = Some b"
    unfolding t using dm Pb ne by (rule map_of_fold_add_word_Some)
  define e where "e = length pre + length P - 1"
  have lP: "0 < length P" using ne by simp
  have e: "e < length (pre @ P @ post)" "length pre \<le> e" "Suc e - length pre = length P"
    using lP unfolding e_def length_append by linarith+
  have "take (Suc e - length pre) (drop (length pre) (pre @ P @ post)) = P"
    by (simp add: e(3))
  then have "(e, b) \<in> set (automaton_iter (automaton t) (pre @ P @ post))"
    using automaton_iter_intro[OF e(1,2)] A by simp
  then have "(int e - int (length b) + 1, int e + 1, b) \<in> set (search_barcode t (pre @ P @ post))"
    by (force simp: search_barcode_def)
  moreover have "int e - int (length b) + 1 = int (length pre)"
    "int e + 1 = int (length pre) + int (length P)"
    using lP len unfolding e_def by linarith+
  ultimately have "(int (length pre), int (length pre) + int (length P), b)
           \<in> set (search_barcode t (pre @ P @ post))" by simp
  then show ?thesis using Pbl blt by (simp add: set_ordered_matches)
qed

section \<open>The scenario of one barcode\<close>

lemma scenario_init:
  "ReadTagger_init [(''AAAA'', ''BC1'')] 2 4 1 True = Inr (scenario_tagger (Some initial_stats), [])"
  by (simp add: ReadTagger_init_def get_all_barcodes_def get_mismatches_def
        bases_without_def claim_pattern_def truthy_def Let_def add_word_def
        scenario_tagger_def scenario_automaton_def)

lemma scenario_get_tagger:
  "get_tagger [(''BC1'', ''AAAA'')] 2 4 = Inr (scenario_tagger (Some initial_stats), [])"
  by (simp add: get_tagger_def scenario_init)

lemma scenario_fields:
  "bc_to_id (scenario_tagger st) = [(''AAAA'', ''BC1'')]"
  "len_linker (scenario_tagger st) = 2"
  "self_len_primer (scenario_tagger st) = 4"
  "stats (scenario_tagger st) = st"
  "blacklist (scenario_tagger st) = []"
  "(scenario_tagger st)\<lparr>stats := st'\<rparr> = scenario_tagger st'"
  by (simp_all add: scenario_tagger_def)

lemma scenario_words:
  "automaton (scenario_tagger st) = scenario_automaton"
  "scenario_automaton \<noteq> []"
  "iter_error scenario_automaton = None"
  by (simp_all add: scenario_tagger_def scenario_automaton_def iter_error_def)

lemma scenario_search:
  "search_barcode (scenario_tagger st) ''GGAAAACCGGTT''
     = [(1, 5, ''AAAA''), (2, 6, ''AAAA''), (3, 7, ''AAAA'')]"
  by (simp add: search_barcode_def automaton_iter_def scenario_tagger_def scenario_automaton_def)

lemma scenario_search_barcode_only:
  "search_barcode (scenario_tagger st) ''AAAA'' = [(0, 4, ''AAAA'')]"
  by (simp add: search_barcode_def automaton_iter_def scenario_tagger_def scenario_automaton_def)

lemma scenario_search_none:
  "search_barcode (scenario_tagger st) ''GGCC'' = []"
  by (simp add: search_barcode_def automaton_iter_def scenario_tagger_def scenario_automaton_def)

lemma scenario_tag_read:
  "tag_read (scenario_tagger (Some initial_stats)) ''r1'' ''GGAAAACCGGTT'' ''IIIIIIIIIIII'' =
     Inr (\<lparr>header = ''r1'', qual = ''IIIIIIIIIIII'', len_primer = 4,
            junk = Some ''G'', barcode = Some ''BC1'', linker = Some ''AC'',
            amplicon = ''CGGTT'', other_barcodes = {}, barcode_mismatch = True\<rparr>,
          scenario_tagger (Some [(''n_only_primer'', 0), (''n_multiple_bcs'', 0),
             (''n_no_barcode'', 0), (''n_regular'', 1),
             (''n_barcode_mismatch'', 1), (''n_junk'', 1)]))"
  by (simp add: tag_read_def scenario_search ordered_matches_def Let_def py_slice_def
        slice_index_def record_stats_def PREDS_def initial_stats_def is_just_primer_def
        is_regular_def has_multiple_barcodes_def truthy_def scenario_fields
        scenario_words(1,3))

lemma scenario_tag_read_barcode_only:
  "tag_read (scenario_tagger (Some initial_stats)) ''r2'' ''AAAA'' ''IIII'' =
     Inr (\<lparr>header = ''r2'', qual = ''IIII'', len_primer = 4,
            junk = None, barcode = Some ''BC1'', linker = Some [],
            amplicon = [], other_barcodes = {}, barcode_mismatch = False\<rparr>,
          scenario_tagger (Some [(''n_only_primer'', 1), (''n_multiple_bcs'', 0),
             (''n_no_barcode'', 0), (''n_regular'', 0),
             (''n_barcode_mismatch'', 0), (''n_junk'', 0)]))"
  by (simp add: tag_read_def scenario_search_barcode_only ordered_matches_def Let_def py_slice_def
        slice_index_def record_stats_def PREDS_def initial_stats_def is_just_primer_def
        is_regular_def has_multiple_barcodes_def truthy_def scenario_fields
        scenario_words(1,3))


lemma scenario_patterns:
  "get_all_barcodes [''AAAA''] 1 = Inr (scenario_automaton, [], [])"
  by (simp add: get_all_barcodes_def get_mismatches_def bases_without_def claim_pattern_def
        truthy_def Let_def scenario_automaton_def)

lemma scenario_run:
  "run_tagger [(''BC1'', ''AAAA'')] 2 4 [(''r1'', ''GGAAAACCGGTT'', ''IIIIIIIIIIII'')] =
     Inr ([\<lparr>header = ''r1'', qual = ''IIIIIIIIIIII'', len_primer = 4,
            junk = Some ''G'', barcode = Some ''BC1'', linker = Some ''AC'',
            amplicon = ''CGGTT'', other_barcodes = {}, barcode_mismatch = True\<rparr>],
          scenario_tagger (Some [(''n_only_primer'', 0), (''n_multiple_bcs'', 0),
             (''n_no_barcode'', 0), (''n_regular'', 1),
             (''n_barcode_mismatch'', 1), (''n_junk'', 1)]))"
  by (simp add: run_tagger_def scenario_get_tagger scenario_tag_read)

lemma scenario_run_barcode_only:
  "run_tagger [(''BC1'', ''AAAA'')] 2 4 [(''r2'', ''AAAA'', ''IIII'')] =
     Inr ([\<lparr>header = ''r2'', qual = ''IIII'', len_primer = 4,
            junk = None, barcode = Some ''BC1'', linker = Some [],
            amplicon = [], other_barcodes = {}, barcode_mismatch = False\<rparr>],
          scenario_tagger (Some [(''n_only_primer'', 1), (''n_multiple_bcs'', 0),
             (''n_no_barcode'', 0), (''n_regular'', 0),
             (''n_barcode_mismatch'', 0), (''n_junk'', 0)]))"
  by (simp add: run_tagger_def scenario_get_tagger scenario_tag_read_barcode_only)

text \<open>
  C1, as the code has it: with the barcode \<open>AAAA\<close> (identifier \<open>BC1\<close>), linker
  length 2, primer length 4 and budget 1, the read \<open>GGAAAACCGGTT\<close> has three matches,
  at [1,5), [2,6) and [3,7); the one that ends first, the one-mismatch pattern \<open>GAAA\<close>
  at [1,5), is the primary match, so junk is \<open>G\<close>, the linker \<open>AC\<close>, the amplicon
  \<open>CGGTT\<close> and the mismatch flag True.
\<close>

theorem C1_scenario_primary_match:
  "map_sum id (\<lambda>(t, w). ordered_matches (search_barcode t ''GGAAAACCGGTT''))
       (get_tagger [(''BC1'', ''AAAA'')] 2 4)
     = Inr [(1, 5, ''AAAA''), (2, 6, ''AAAA''), (3, 7, ''AAAA'')]
   \<and> map_sum id fst
       (run_tagger [(''BC1'', ''AAAA'')] 2 4 [(''r1'', ''GGAAAACCGGTT'', ''IIIIIIIIIIII'')])
     = Inr [\<lparr>header = ''r1'', qual = ''IIIIIIIIIIII'', len_primer = 4,
              junk = Some ''G'', barcode = Some ''BC1'', linker = Some ''AC'',
              amplicon = ''CGGTT'', other_barcodes = {}, barcode_mismatch = True\<rparr>]"
  by (simp add: scenario_get_tagger scenario_search scenario_run ordered_matches_def)

text \<open>C1 as stated fails: the tagged read does not have the segments the claim lists.\<close>

theorem C1_counterexample:
  "map_sum id (map (\<lambda>r. (junk r, linker r, amplicon r, barcode_mismatch r)) \<circ> fst)
       (run_tagger [(''BC1'', ''AAAA'')] 2 4 [(''r1'', ''GGAAAACCGGTT'', ''IIIIIIIIIIII'')])
     \<noteq> Inr [(Some ''GG'', Some ''CC'', ''GGTT'', False)]"
  by (simp add: scenario_run)

text \<open>
  C4 as stated fails: a read that is just the barcode is tagged with an empty amplicon.
\<close>

theorem C4_counterexample:
  "map_sum id (map amplicon \<circ> fst)
       (run_tagger [(''BC1'', ''AAAA'')] 2 4 [(''r2'', ''AAAA'', ''IIII'')])
     = Inr [[]]"
  by (simp add: scenario_run_barcode_only)

theorem C4_amplicon_is_remainder_witness:
  "ReadTagger_init [(''AAAA'', ''BC1'')] 2 4 1 True = Inr (scenario_tagger (Some initial_stats), [])
   \<and> ordered_matches (search_barcode (scenario_tagger (Some initial_stats)) ''GGAAAACCGGTT'')
       = [(1, 5, ''AAAA''), (2, 6, ''AAAA''), (3, 7, ''AAAA'')]
   \<and> ''CGGTT'' = drop (nat (5 + 2)) ''GGAAAACCGGTT''
   \<and> ordered_matches (search_barcode (scenario_tagger (Some initial_stats)) ''AAAA'')
       = [(0, 4, ''AAAA'')]
   \<and> [] = drop (nat (4 + 2)) ''AAAA'' \<and> \<not> (4 + 2 < int (length ''AAAA''))"
  using C4_amplicon_is_remainder[OF scenario_init _ _ scenario_tag_read, of "Some initial_stats"]
    C4_amplicon_is_remainder[OF scenario_init _ _ scenario_tag_read_barcode_only,
      of "Some initial_stats"]
  by (simp add: scenario_init scenario_fields scenario_search scenario_search_barcode_only
        ordered_matches_def)

theorem C9_segments_spell_read_witness:
  "ReadTagger_init [(''AAAA'', ''BC1'')] 2 4 1 True = Inr (scenario_tagger (Some initial_stats), [])
   \<and> ordered_matches (search_barcode (scenario_tagger (Some initial_stats)) ''GGAAAACCGGTT'')
       = [(1, 5, ''AAAA''), (2, 6, ''AAAA''), (3, 7, ''AAAA'')]
   \<and> ''G'' @ py_slice ''GGAAAACCGGTT'' (Some 1) (Some 5) @ ''AC'' @ ''CGGTT'' = ''GGAAAACCGGTT''"
  using C9_segments_spell_read[OF scenario_init _ _ scenario_tag_read, of "Some initial_stats"]
  by (simp add: scenario_init scenario_fields scenario_search ordered_matches_def)

theorem C5_scan_finds_pattern_witness:
  "ReadTagger_init [(''AAAA'', ''BC1'')] 2 4 1 True = Inr (scenario_tagger (Some initial_stats), [])
   \<and> get_all_barcodes (map fst [(''AAAA'', ''BC1'')]) 1 = Inr (scenario_automaton, [], [])
   \<and> map_of scenario_automaton ''GAAA'' = Some ''AAAA''
   \<and> (1, 5, ''AAAA'')
         \<in> set (search_barcode (scenario_tagger (Some initial_stats)) (''G'' @ ''GAAA'' @ ''ACCGGTT''))"
proof -
  have g: "get_all_barcodes (map fst [(''AAAA'', ''BC1'')]) 1 = Inr (scenario_automaton, [], [])"
    by (simp add: scenario_patterns)
  have m: "map_of scenario_automaton ''GAAA'' = Some ''AAAA''"
    by (simp add: scenario_automaton_def)
  have n: "[] \<notin> fst ` set [(''AAAA'', ''BC1'')]" by simp
  show ?thesis
    using C5_scan_finds_pattern[OF scenario_init g m n, of "''G''" "''ACCGGTT''"] g m
    by (simp add: scenario_init)
qed

section \<open>Reads tagged by a tagger without patterns\<close>






section \<open>Statistics\<close>

lemma count_preds_effect:
  "\<forall>name \<in> fst ` set ps. map_of st name \<noteq> None \<Longrightarrow> count_preds ps r st = Inr st'
     \<Longrightarrow> map_of st' k
          = map_option (\<lambda>n. n + int (length (filter (\<lambda>(name, pred). name = k \<and> pred r) ps)))
              (map_of st k)"
proof (induction ps r st rule: count_preds.induct)
  case (1 r st)
  then show ?case by (simp add: option.map_ident)
next
  case (2 name pred ps r st)
  show ?case
  proof (cases "pred r")
    case True
    from "2.prems"(1) obtain n where n: "map_of st name = Some n" by force
    have "\<forall>k \<in> fst ` set ps. map_of (AList.update name (n + 1) st) k \<noteq> None"
      using "2.prems"(1) by (auto simp: update_conv')
    moreover have "count_preds ps r (AList.update name (n + 1) st) = Inr st'"
      using "2.prems"(2) True n by simp
    ultimately have "map_of st' k
          = map_option (\<lambda>n. n + int (length (filter (\<lambda>(name, pred). name = k \<and> pred r) ps)))
              (map_of (AList.update name (n + 1) st) k)"
      using "2.IH"(1)[OF True n] by blast
    then show ?thesis using True n by (auto simp: update_conv')
  next
    case False
    then show ?thesis using 2 by auto
  qed
qed

lemma tag_read_record_stats:
  assumes "tag_read t hdr s q = Inr (r, t')"
  shows "record_stats t r = Inr (r, t')"
proof (cases "ordered_matches (search_barcode t s)")
  case Nil
  have ne: "automaton t \<noteq> []" using assms by (rule tag_read_Inr_words)
  show ?thesis
    using assms record_stats_Inr unfolding tag_read_Nil[OF ne Nil] by metis
next
  case (Cons mt rest)
  obtain bs be bc where mt: "mt = (bs, be, bc)" by (cases mt) auto
  have ne: "automaton t \<noteq> []" using assms by (rule tag_read_Inr_words)
  show ?thesis
  proof (cases "lookup_ids (bc_to_id t) rest")
    case (Inl e)
    then show ?thesis using assms tag_read_Cons_Inl[OF ne Cons[unfolded mt] Inl, of hdr q] by simp
  next
    case (Inr ids)
    show ?thesis
      using assms record_stats_Inr unfolding tag_read_Cons[OF ne Cons[unfolded mt] Inr] by metis
  qed
qed

lemma stat_after_record:
  assumes "wf_tagger t" "stats t \<noteq> None" "record_stats t r = Inr (r, t')"
    and "k \<in> fst ` set PREDS"
  shows "stat t' k = stat t k + int (length (filter (\<lambda>(name, pred). name = k \<and> pred r) PREDS))"
proof -
  from assms(2) obtain st where st: "stats t = Some st" by auto
  then have keys: "\<forall>name \<in> fst ` set PREDS. map_of st name \<noteq> None"
    using assms(1) by (simp add: wf_tagger_def)
  from assms(3) st obtain st' where c: "count_preds PREDS r st = Inr st'"
    and t': "t' = t\<lparr>stats := Some st'\<rparr>"
    by (auto simp: record_stats_def split: sum.splits)
  from keys assms(4) obtain n where n: "map_of st k = Some n" by auto
  show ?thesis
    using count_preds_effect[OF keys c, of k] n by (simp add: stat_def st t')
qed

lemma exactly_one_class:
  assumes "barcode r = None \<or> truthy (barcode r)"
  shows "int (length (filter (\<lambda>(name, pred). name = ''n_no_barcode'' \<and> pred r) PREDS))
       + int (length (filter (\<lambda>(name, pred). name = ''n_only_primer'' \<and> pred r) PREDS))
       + int (length (filter (\<lambda>(name, pred). name = ''n_regular'' \<and> pred r) PREDS)) = 1"
  using assms by (auto simp: PREDS_def is_regular_def is_just_primer_def truthy_def)

lemma tag_read_barcode:
  assumes "wf_tagger t" "tag_read t hdr s q = Inr (r, t')"
  shows "barcode r = None \<or> (\<exists>bc i. map_of (bc_to_id t) bc = Some i \<and> barcode r = Some i)"
proof (cases "ordered_matches (search_barcode t s)")
  case Nil
  then show ?thesis using tag_read_no_match[OF assms(2) Nil] by simp
next
  case (Cons mt rest)
  obtain bs be bc where mt: "mt = (bs, be, bc)" by (cases mt) auto
  from first_match_span[OF assms(1) Cons[unfolded mt]]
  obtain i where "map_of (bc_to_id t) bc = Some i" by auto
  moreover have "barcode r = map_of (bc_to_id t) bc"
    using tag_read_match[OF assms(2) Cons[unfolded mt]] by auto
  ultimately show ?thesis by auto
qed


lemma truthy_identifier:
  assumes "\<forall>(bc, i) \<in> set d. i \<noteq> []" "map_of d bc = Some i"
  shows "truthy (Some i)"
proof -
  have "(bc, i) \<in> set d" using assms(2) by (rule map_of_SomeD)
  then show ?thesis using assms(1) by (auto simp: truthy_def)
qed

lemma tag_read_class_step:
  assumes "wf_tagger t" "stats t \<noteq> None" "\<forall>(bc, i) \<in> set (bc_to_id t). i \<noteq> []"
    and "tag_read t hdr s q = Inr (r, t')"
  shows "stat t' ''n_no_barcode'' + stat t' ''n_only_primer'' + stat t' ''n_regular''
           = stat t ''n_no_barcode'' + stat t ''n_only_primer'' + stat t ''n_regular'' + 1"
    and "barcode r = None \<or> truthy (barcode r)"
proof -
  show b: "barcode r = None \<or> truthy (barcode r)"
    using tag_read_barcode[OF assms(1,4)] truthy_identifier[OF assms(3)] by auto
  have rs: "record_stats t r = Inr (r, t')" using assms(4) by (rule tag_read_record_stats)
  have k: "''n_no_barcode'' \<in> fst ` set PREDS" "''n_only_primer'' \<in> fst ` set PREDS"
    "''n_regular'' \<in> fst ` set PREDS"
    by (simp_all add: PREDS_def)
  show "stat t' ''n_no_barcode'' + stat t' ''n_only_primer'' + stat t' ''n_regular''
           = stat t ''n_no_barcode'' + stat t ''n_only_primer'' + stat t ''n_regular'' + 1"
    using stat_after_record[OF assms(1,2) rs k(1)] stat_after_record[OF assms(1,2) rs k(2)]
      stat_after_record[OF assms(1,2) rs k(3)] exactly_one_class[OF b]
    by linarith
qed

lemma exactly_one_class_preds:
  assumes "barcode r = None \<or> truthy (barcode r)"
  shows "(\<not> truthy (barcode r) \<and> \<not> is_just_primer r \<and> \<not> is_regular r)
       \<or> (truthy (barcode r) \<and> is_just_primer r \<and> \<not> is_regular r)
       \<or> (truthy (barcode r) \<and> \<not> is_just_primer r \<and> is_regular r)"
  using assms by (auto simp: is_regular_def is_just_primer_def truthy_def)

lemma tag_reads_class_total:
  assumes "wf_tagger t" "stats t \<noteq> None" "\<forall>(bc, i) \<in> set (bc_to_id t). i \<noteq> []"
    and "tag_reads t reads = Inr (rs, t')"
  shows "stat t' ''n_no_barcode'' + stat t' ''n_only_primer'' + stat t' ''n_regular''
           = stat t ''n_no_barcode'' + stat t ''n_only_primer'' + stat t ''n_regular''
               + int (length reads)
       \<and> (\<forall>r \<in> set rs. barcode r = None \<or> truthy (barcode r))"
  using assms
proof (induction reads arbitrary: t rs)
  case Nil
  then show ?case by simp
next
  case (Cons rd reads)
  obtain hdr s q where rd: "rd = (hdr, s, q)" by (cases rd) auto
  from Cons.prems(4) obtain r t1 rs1 where
    1: "tag_read t hdr s q = Inr (r, t1)" and 2: "tag_reads t1 reads = Inr (rs1, t')"
    and rs: "rs = r # rs1"
    by (auto simp: rd split: sum.splits)
  have ne: "automaton t \<noteq> []" using 1 by (rule tag_read_Inr_words)
  from tag_read_succeeds[OF Cons.prems(1) ne, of hdr s q] 1
  have w1: "wf_tagger t1" and b1: "bc_to_id t1 = bc_to_id t" and s1: "stats t1 \<noteq> None"
    using Cons.prems(2) by auto
  have i1: "\<forall>(bc, i) \<in> set (bc_to_id t1). i \<noteq> []" using Cons.prems(3) by (simp add: b1)
  note step = tag_read_class_step[OF Cons.prems(1,2,3) 1]
  note ih = Cons.IH[OF w1 s1 i1 2]
  show ?case using step ih by (simp add: rs)
qed

lemma initial_class_total:
  assumes "ReadTagger_init bc_ids ll lp m True = Inr (t, w)"
  shows "stats t \<noteq> None" "bc_to_id t = bc_ids"
    "stat t ''n_no_barcode'' + stat t ''n_only_primer'' + stat t ''n_regular'' = 0"
  using assms by (auto simp: ReadTagger_init_def stat_def initial_stats_def split: sum.splits)

text \<open>
  C10, for identifiers that are not the empty string: a tagger that keeps statistics and
  holds at least one pattern tags every finite sequence of reads, and whenever a sequence
  of reads has been tagged, the counters of the reads without barcode, of the reads that
  are just primer and of the regular reads add up to the number of reads, because every
  tagged read satisfies exactly one of the three predicates.
\<close>

theorem C10_three_classes_partition:
  assumes "ReadTagger_init bc_ids ll lp m True = Inr (t, w)"
    and "\<forall>(bc, i) \<in> set bc_ids. i \<noteq> []"
  shows "(automaton t \<noteq> [] \<longrightarrow> (\<exists>rs t'. tag_reads t reads = Inr (rs, t')))
       \<and> (\<forall>rs t'. tag_reads t reads = Inr (rs, t') \<longrightarrow>
             length rs = length reads
           \<and> stat t' ''n_no_barcode'' + stat t' ''n_only_primer'' + stat t' ''n_regular''
                 = int (length reads)
           \<and> (\<forall>r \<in> set rs.
                  (\<not> truthy (barcode r) \<and> \<not> is_just_primer r \<and> \<not> is_regular r)
                \<or> (truthy (barcode r) \<and> is_just_primer r \<and> \<not> is_regular r)
                \<or> (truthy (barcode r) \<and> \<not> is_just_primer r \<and> is_regular r)))"
proof -
  have wf: "wf_tagger t" using assms(1) by (rule ReadTagger_init_wf)
  note init = initial_class_total[OF assms(1)]
  have ids: "\<forall>(bc, i) \<in> set (bc_to_id t). i \<noteq> []" using assms(2) by (simp add: init(2))
  have 1: "automaton t \<noteq> [] \<longrightarrow> (\<exists>rs t'. tag_reads t reads = Inr (rs, t'))"
  proof
    assume "automaton t \<noteq> []"
    from tag_reads_succeeds[OF wf this, of reads] show "\<exists>rs t'. tag_reads t reads = Inr (rs, t')"
      by blast
  qed
  have 2: "length rs = length reads
           \<and> stat t' ''n_no_barcode'' + stat t' ''n_only_primer'' + stat t' ''n_regular''
                 = int (length reads)
           \<and> (\<forall>r \<in> set rs.
                  (\<not> truthy (barcode r) \<and> \<not> is_just_primer r \<and> \<not> is_regular r)
                \<or> (truthy (barcode r) \<and> is_just_primer r \<and> \<not> is_regular r)
                \<or> (truthy (barcode r) \<and> \<not> is_just_primer r \<and> is_regular r))"
    if run: "tag_reads t reads = Inr (rs, t')" for rs t'
  proof -
    have len: "length rs = length reads" using run by (rule tag_reads_length)
    from tag_reads_class_total[OF wf init(1) ids run]
    have total: "stat t' ''n_no_barcode'' + stat t' ''n_only_primer'' + stat t' ''n_regular''
                   = int (length reads)"
      and each: "\<forall>r \<in> set rs. barcode r = None \<or> truthy (barcode r)"
      using init(3) by simp_all
    have "\<forall>r \<in> set rs.
                    (\<not> truthy (barcode r) \<and> \<not> is_just_primer r \<and> \<not> is_regular r)
                  \<or> (truthy (barcode r) \<and> is_just_primer r \<and> \<not> is_regular r)
                  \<or> (truthy (barcode r) \<and> \<not> is_just_primer r \<and> is_regular r)"
      using each exactly_one_class_preds by blast
    then show ?thesis using len total by blast
  qed
  show ?thesis using 1 2 by blast
qed

theorem C10_three_classes_partition_witness:
  "ReadTagger_init [(''AAAA'', ''BC1'')] 2 4 1 True = Inr (scenario_tagger (Some initial_stats), [])
   \<and> automaton (scenario_tagger (Some initial_stats)) \<noteq> []
   \<and> (\<exists>rs t'. tag_reads (scenario_tagger (Some initial_stats))
                    [(''r1'', ''GGAAAACCGGTT'', ''IIIIIIIIIIII''), (''r2'', ''AAAA'', ''IIII''),
                     (''r3'', ''GGCC'', ''IIII'')] = Inr (rs, t')
          \<and> stat t' ''n_no_barcode'' + stat t' ''n_only_primer'' + stat t' ''n_regular'' = 3)"
proof -
  have ids: "\<forall>(bc, i) \<in> set [(''AAAA'', ''BC1'')]. i \<noteq> []" by simp
  have ne: "automaton (scenario_tagger (Some initial_stats)) \<noteq> []"
    by (simp add: scenario_words)
  show ?thesis
    using C10_three_classes_partition[OF scenario_init ids,
        of "[(''r1'', ''GGAAAACCGGTT'', ''IIIIIIIIIIII''), (''r2'', ''AAAA'', ''IIII''),
             (''r3'', ''GGCC'', ''IIII'')]"] scenario_init ne
    by auto
qed

lemma empty_identifier_run:
  "run_tagger [('''', ''AAAA'')] 0 4 [(''r2'', ''AAAA'', ''IIII'')] =
     Inr ([\<lparr>header = ''r2'', qual = ''IIII'', len_primer = 4, junk = None,
             barcode = Some [], linker = Some [], amplicon = [],
             other_barcodes = {}, barcode_mismatch = False\<rparr>],
          \<lparr>bc_to_id = [(''AAAA'', [])], len_linker = 0, self_len_primer = 4,
            stats = Some [(''n_only_primer'', 1), (''n_multiple_bcs'', 0),
                          (''n_no_barcode'', 1), (''n_regular'', 0),
                          (''n_barcode_mismatch'', 0), (''n_junk'', 0)],
            automaton = scenario_automaton, blacklist = []\<rparr>)"
proof -
  have t: "get_tagger [('''', ''AAAA'')] 0 4 =
      Inr (\<lparr>bc_to_id = [(''AAAA'', [])], len_linker = 0, self_len_primer = 4,
            stats = Some initial_stats, automaton = scenario_automaton, blacklist = []\<rparr>, [])"
    by (simp add: get_tagger_def ReadTagger_init_def scenario_patterns add_word_def
          scenario_automaton_def)
  have s: "search_barcode \<lparr>bc_to_id = [(''AAAA'', [])], len_linker = 0, self_len_primer = 4,
            stats = st, automaton = scenario_automaton, blacklist = []\<rparr> ''AAAA''
      = [(0, 4, ''AAAA'')]" for st
    by (simp add: search_barcode_def automaton_iter_def scenario_automaton_def)
  show ?thesis
    unfolding run_tagger_def t
    by (simp add: tag_read_def s ordered_matches_def Let_def py_slice_def
        slice_index_def record_stats_def PREDS_def initial_stats_def is_just_primer_def
        is_regular_def has_multiple_barcodes_def truthy_def scenario_words(3))
qed

text \<open>
  C10 as stated fails for a barcode whose identifier is the empty string: one read is
  tagged and is counted both as a read without barcode and as a read that is just
  primer.
\<close>

theorem C10_counterexample:
  "map_sum id (\<lambda>(rs, t). (length rs, stat t ''n_no_barcode'', stat t ''n_only_primer'',
                          stat t ''n_regular''))
       (run_tagger [('''', ''AAAA'')] 0 4 [(''r2'', ''AAAA'', ''IIII'')])
     = Inr (1, 1, 1, 0)"
  by (simp add: empty_identifier_run stat_def)

section \<open>Collisions are between different barcodes\<close>

lemma substitute_list_update:
  "i < length bc \<Longrightarrow> take i bc @ m # drop (Suc i) bc = bc[i := m]"
  by (simp add: upd_conv_take_nth_drop)

lemma distinct_bases_without: "distinct (bases_without c)"
  by (simp add: bases_without_def)

lemma bases_without_differs: "m \<in> set (bases_without c) \<Longrightarrow> m \<noteq> c"
  by (simp add: bases_without_def del: filter.simps)

lemma distinct_concat_map:
  "distinct xs \<Longrightarrow> (\<And>x. x \<in> set xs \<Longrightarrow> distinct (f x))
     \<Longrightarrow> (\<And>x y. x \<in> set xs \<Longrightarrow> y \<in> set xs \<Longrightarrow> x \<noteq> y \<Longrightarrow> set (f x) \<inter> set (f y) = {})
     \<Longrightarrow> distinct (concat (map f xs))"
proof (induction xs)
  case Nil
  then show ?case by simp
next
  case (Cons x xs)
  have "distinct (concat (map f xs))" using Cons by auto
  moreover have "distinct (f x)" using Cons.prems(2) by simp
  moreover have "set (f x) \<inter> set (f y) = {}" if "y \<in> set xs" for y
    using Cons.prems(3)[of x y] Cons.prems(1) that by auto
  ultimately show ?case by auto
qed

lemma distinct_substitutions:
  "distinct (map (\<lambda>m. take i bc @ m # drop (i + 1) bc) (bases_without (bc ! i)))"
proof -
  have "inj_on (\<lambda>m. take i bc @ m # drop (i + 1) bc) (set (bases_without (bc ! i)))"
    by (auto simp: inj_on_def)
  then show ?thesis by (simp add: distinct_map distinct_bases_without)
qed

lemma distinct_get_mismatches: "distinct (fst (get_mismatches bc 1))"
proof -
  let ?f = "\<lambda>i. map (\<lambda>m. take i bc @ m # drop (i + 1) bc) (bases_without (bc ! i))"
  have el: "p ! i \<noteq> bc ! i \<and> (\<forall>j < length bc. j \<noteq> i \<longrightarrow> p ! j = bc ! j)"
    if "i < length bc" "p \<in> set (?f i)" for i p
  proof -
    from that(2) obtain m where m: "m \<in> set (bases_without (bc ! i))"
      and p: "p = take i bc @ m # drop (Suc i) bc" by auto
    have "p = bc[i := m]" unfolding p using that(1) by (rule substitute_list_update)
    then show ?thesis using that(1) bases_without_differs[OF m] by simp
  qed
  have 1: "bc \<notin> set (concat (map ?f [0..<length bc]))"
  proof
    assume "bc \<in> set (concat (map ?f [0..<length bc]))"
    then obtain i where "i < length bc" "bc \<in> set (?f i)"
      unfolding in_concat_map by auto
    from el[OF this] show False by simp
  qed
  have 2: "distinct (concat (map ?f [0..<length bc]))"
  proof (rule distinct_concat_map)
    show "distinct [0..<length bc]" by simp
  next
    fix i assume "i \<in> set [0..<length bc]"
    show "distinct (?f i)" by (rule distinct_substitutions)
  next
    fix i j assume ij: "i \<in> set [0..<length bc]" "j \<in> set [0..<length bc]" "i \<noteq> j"
    then have lt: "i < length bc" "j < length bc" by simp_all
    show "set (?f i) \<inter> set (?f j) = {}"
    proof (rule ccontr)
      assume "set (?f i) \<inter> set (?f j) \<noteq> {}"
      then obtain p where pi: "p \<in> set (?f i)" and pj: "p \<in> set (?f j)" by blast
      have "p ! i \<noteq> bc ! i" using el[OF lt(1) pi] by simp
      moreover have "p ! i = bc ! i" using el[OF lt(2) pj] lt(1) ij(3) by simp
      ultimately show False by simp
    qed
  qed
  show ?thesis using 1 2 by (simp only: fst_get_mismatches_1 distinct.simps) simp
qed


lemma claiming_inv_step:
  assumes "claiming_inv V bc D st" "p \<notin> D" "bc \<notin> V"
  shows "claiming_inv V bc (insert p D) (claim_pattern bc p st)"
proof -
  obtain found bl warns where st: "st = (found, bl, warns)" by (cases st) auto
  from assms(1) have a: "(\<forall>p v. map_of found p = Some v \<longrightarrow> p \<in> D \<longrightarrow> v = bc)
    \<and> (\<forall>p v. map_of found p = Some v \<longrightarrow> p \<notin> D \<longrightarrow> v \<in> V)
    \<and> (\<forall>p prev b. (p, prev, b) \<in> set warns \<longrightarrow> prev \<noteq> b \<and> prev \<in> V \<and> b \<in> insert bc V)
    \<and> (\<forall>p s a b. map_of bl p = Some s \<longrightarrow> (a, b) \<in> s \<longrightarrow> a \<noteq> b)
    \<and> fst ` set bl = fst ` set warns"
    unfolding st claiming_inv_def prod.case .
  then have f1: "\<forall>p v. map_of found p = Some v \<longrightarrow> p \<in> D \<longrightarrow> v = bc"
    and f2: "\<forall>p v. map_of found p = Some v \<longrightarrow> p \<notin> D \<longrightarrow> v \<in> V"
    and w: "\<forall>p prev b. (p, prev, b) \<in> set warns \<longrightarrow> prev \<noteq> b \<and> prev \<in> V \<and> b \<in> insert bc V"
    and b: "\<forall>p s a b. map_of bl p = Some s \<longrightarrow> (a, b) \<in> s \<longrightarrow> a \<noteq> b"
    and k: "fst ` set bl = fst ` set warns"
    by simp_all
  have 1: "\<forall>q v. map_of (AList.update p bc found) q = Some v \<longrightarrow> q \<in> insert p D \<longrightarrow> v = bc"
    using f1 by (simp add: update_conv')
  have 2: "\<forall>q v. map_of (AList.update p bc found) q = Some v \<longrightarrow> q \<notin> insert p D \<longrightarrow> v \<in> V"
    using f2 by (simp add: update_conv')
  show ?thesis
  proof (cases "truthy (map_of found p)")
    case False
    then have c: "claim_pattern bc p st = (AList.update p bc found, bl, warns)"
      by (simp add: st claim_pattern_def)
    show ?thesis unfolding c claiming_inv_def prod.case
      using 1 2 w b k by (intro conjI)
  next
    case True
    then obtain prev where prev: "map_of found p = Some prev"
      by (auto simp: truthy_def split: option.splits)
    then have pv: "prev \<in> V" using f2 assms(2) by simp
    then have ne: "prev \<noteq> bc" using assms(3) by auto
    define item where "item = insert (bc, prev) (insert (prev, bc)
                         (case map_of bl p of None \<Rightarrow> {} | Some s \<Rightarrow> s))"
    have c: "claim_pattern bc p st
               = (AList.update p bc found, AList.update p item bl, warns @ [(p, prev, bc)])"
      using True prev by (simp add: st claim_pattern_def Let_def item_def)
    have 3: "\<forall>q prev' b. (q, prev', b) \<in> set (warns @ [(p, prev, bc)])
               \<longrightarrow> prev' \<noteq> b \<and> prev' \<in> V \<and> b \<in> insert bc V"
      using w pv ne by auto
    have it: "\<forall>x y. (x, y) \<in> item \<longrightarrow> x \<noteq> y"
    proof (cases "map_of bl p")
      case None
      then show ?thesis using ne by (auto simp: item_def)
    next
      case (Some s)
      then have "\<forall>x y. (x, y) \<in> s \<longrightarrow> x \<noteq> y" using b by blast
      then show ?thesis using ne Some by (auto simp: item_def)
    qed
    have 4: "\<forall>q s x y. map_of (AList.update p item bl) q = Some s \<longrightarrow> (x, y) \<in> s \<longrightarrow> x \<noteq> y"
    proof (intro allI impI)
      fix q s x y assume m: "map_of (AList.update p item bl) q = Some s" and xy: "(x, y) \<in> s"
      show "x \<noteq> y"
      proof (cases "q = p")
        case True
        then have "s = item" using m by (simp add: update_conv')
        then show ?thesis using it xy by blast
      next
        case False
        then have "map_of bl q = Some s" using m by (simp add: update_conv')
        then show ?thesis using b xy by blast
      qed
    qed
    have 5: "fst ` set (AList.update p item bl) = fst ` set (warns @ [(p, prev, bc)])"
      using k by (simp add: dom_update)
    show ?thesis unfolding c claiming_inv_def prod.case
      using 1 2 3 4 5 by (intro conjI)
  qed
qed

lemma claiming_inv_fold:
  "claiming_inv V bc D st \<Longrightarrow> distinct ps \<Longrightarrow> set ps \<inter> D = {} \<Longrightarrow> bc \<notin> V
     \<Longrightarrow> claiming_inv V bc (D \<union> set ps) (fold (claim_pattern bc) ps st)"
proof (induction ps arbitrary: D st)
  case Nil
  then show ?case by simp
next
  case (Cons p ps)
  have "claiming_inv V bc (insert p D) (claim_pattern bc p st)"
    using Cons.prems by (intro claiming_inv_step) auto
  moreover have "distinct ps" "set ps \<inter> insert p D = {}" using Cons.prems by auto
  ultimately have "claiming_inv V bc (insert p D \<union> set ps)
                     (fold (claim_pattern bc) ps (claim_pattern bc p st))"
    using Cons.IH Cons.prems(4) by blast
  then show ?case by simp
qed

lemma claiming_inv_start:
  assumes "collisions_inv V st"
  shows "claiming_inv V bc {} st"
proof -
  obtain found bl warns where st: "st = (found, bl, warns)" by (cases st) auto
  from assms have a: "(\<forall>p v. map_of found p = Some v \<longrightarrow> v \<in> V)
    \<and> (\<forall>p prev b. (p, prev, b) \<in> set warns \<longrightarrow> prev \<noteq> b \<and> prev \<in> V \<and> b \<in> V)
    \<and> (\<forall>p s a b. map_of bl p = Some s \<longrightarrow> (a, b) \<in> s \<longrightarrow> a \<noteq> b)
    \<and> fst ` set bl = fst ` set warns"
    unfolding st collisions_inv_def prod.case .
  then have "\<forall>p v. map_of found p = Some v \<longrightarrow> p \<in> {} \<longrightarrow> v = bc"
    and "\<forall>p v. map_of found p = Some v \<longrightarrow> p \<notin> {} \<longrightarrow> v \<in> V"
    and "\<forall>p prev b. (p, prev, b) \<in> set warns \<longrightarrow> prev \<noteq> b \<and> prev \<in> V \<and> b \<in> insert bc V"
    and "\<forall>p s a b. map_of bl p = Some s \<longrightarrow> (a, b) \<in> s \<longrightarrow> a \<noteq> b"
    and "fst ` set bl = fst ` set warns"
    by simp_all
  then show ?thesis unfolding st claiming_inv_def prod.case by (intro conjI)
qed

lemma claiming_inv_finish:
  assumes "claiming_inv V bc D st"
  shows "collisions_inv (insert bc V) st"
proof -
  obtain found bl warns where st: "st = (found, bl, warns)" by (cases st) auto
  from assms have a: "(\<forall>p v. map_of found p = Some v \<longrightarrow> p \<in> D \<longrightarrow> v = bc)
    \<and> (\<forall>p v. map_of found p = Some v \<longrightarrow> p \<notin> D \<longrightarrow> v \<in> V)
    \<and> (\<forall>p prev b. (p, prev, b) \<in> set warns \<longrightarrow> prev \<noteq> b \<and> prev \<in> V \<and> b \<in> insert bc V)
    \<and> (\<forall>p s a b. map_of bl p = Some s \<longrightarrow> (a, b) \<in> s \<longrightarrow> a \<noteq> b)
    \<and> fst ` set bl = fst ` set warns"
    unfolding st claiming_inv_def prod.case .
  then have f1: "\<forall>p v. map_of found p = Some v \<longrightarrow> p \<in> D \<longrightarrow> v = bc"
    and f2: "\<forall>p v. map_of found p = Some v \<longrightarrow> p \<notin> D \<longrightarrow> v \<in> V"
    and w: "\<forall>p prev b. (p, prev, b) \<in> set warns \<longrightarrow> prev \<noteq> b \<and> prev \<in> V \<and> b \<in> insert bc V"
    and b: "\<forall>p s a b. map_of bl p = Some s \<longrightarrow> (a, b) \<in> s \<longrightarrow> a \<noteq> b"
    and k: "fst ` set bl = fst ` set warns"
    by simp_all
  have 1: "\<forall>p v. map_of found p = Some v \<longrightarrow> v \<in> insert bc V"
    using f1 f2 by blast
  have 2: "\<forall>p prev b. (p, prev, b) \<in> set warns
             \<longrightarrow> prev \<noteq> b \<and> prev \<in> insert bc V \<and> b \<in> insert bc V"
    using w by blast
  show ?thesis unfolding st collisions_inv_def prod.case
    using 1 2 b k by (intro conjI)
qed

lemma collisions_inv_barcodes:
  "collisions_inv V st \<Longrightarrow> distinct bcs \<Longrightarrow> set bcs \<inter> V = {}
     \<Longrightarrow> collisions_inv (V \<union> set bcs)
           (fold (\<lambda>bc. fold (claim_pattern bc) (fst (get_mismatches bc 1))) bcs st)"
proof (induction bcs arbitrary: V st)
  case Nil
  then show ?case by simp
next
  case (Cons bc bcs)
  let ?st1 = "fold (claim_pattern bc) (fst (get_mismatches bc 1)) st"
  have nv: "bc \<notin> V" using Cons.prems(3) by auto
  have "claiming_inv V bc {} st" using Cons.prems(1) by (rule claiming_inv_start)
  then have "claiming_inv V bc ({} \<union> set (fst (get_mismatches bc 1))) ?st1"
    using distinct_get_mismatches nv by (intro claiming_inv_fold) simp_all
  then have 1: "collisions_inv (insert bc V) ?st1" by (rule claiming_inv_finish)
  have "distinct bcs" "set bcs \<inter> insert bc V = {}" using Cons.prems(2,3) by auto
  from Cons.IH[OF 1 this] show ?case by simp
qed

lemma collisions_inv_empty: "collisions_inv {} ([], [], [])"
  by (simp add: collisions_inv_def)

lemma distinct_fold_update:
  "distinct (map fst acc) \<Longrightarrow> distinct (map fst (fold (\<lambda>(i, bc). AList.update bc i) xs acc))"
  by (induction xs arbitrary: acc) (auto simp: distinct_update)


lemma get_tagger_result:
  "\<exists>t found bl w. get_tagger xs ll lp = Inr (t, w)
      \<and> bc_to_id t = fold (\<lambda>(i, bc). AList.update bc i) xs []
      \<and> blacklist t = bl
      \<and> collisions_inv (set (map fst (bc_to_id t))) (found, bl, w)
      \<and> index_inv (set (map fst (bc_to_id t))) (found, bl, w)"
proof -
  define d where "d = fold (\<lambda>(i, bc). AList.update bc i) xs []"
  have dd: "distinct (map fst d)" unfolding d_def by (rule distinct_fold_update) simp
  obtain found bl w where F:
    "fold (\<lambda>bc. fold (claim_pattern bc) (fst (get_mismatches bc 1))) (map fst d) ([], [], [])
       = (found, bl, w)"
    using prod_cases3 by blast
  then have scan: "scan_barcodes (map fst d) 1 ([], [], []) = Inr (found, bl, w)"
    by (simp add: scan_barcodes_one)
  have g: "get_all_barcodes (map fst d) 1
             = Inr (filter (\<lambda>(k, v). k \<notin> fst ` set bl) found, bl, w)"
    using scan by (rule get_all_barcodes_result)
  have c: "collisions_inv (set (map fst d)) (found, bl, w)"
    using collisions_inv_barcodes[OF collisions_inv_empty dd, of ] F by simp
  have i: "index_inv (set (map fst d)) (found, bl, w)"
    using index_inv_scan[OF scan index_inv_empty] by simp
  define t where "t = \<lparr>bc_to_id = d, len_linker = ll, self_len_primer = lp,
      stats = Some initial_stats,
      automaton = fold (\<lambda>(pattern, bc). add_word pattern bc)
                    (filter (\<lambda>(k, v). k \<notin> fst ` set bl) found) [],
      blacklist = bl\<rparr>"
  have gt: "get_tagger xs ll lp = Inr (t, w)"
    using g by (simp add: get_tagger_def ReadTagger_init_def d_def[symmetric] t_def)
  have "bc_to_id t = d" "blacklist t = bl" by (simp_all add: t_def)
  then show ?thesis
    using gt c i unfolding d_def by (intro exI[of _ t] exI[of _ found] exI[of _ bl] exI[of _ w]) simp
qed

text \<open>
  C3, as the code has it: \<^verbatim>\<open>get_tagger\<close> always builds a tagger; the dict it makes of
  the pairs has one entry for each sequence, so a sequence supplied twice is indexed
  once, under the identifier supplied last, and the duplication records no collision.
  Every warning and every pair in a blacklist entry names two different sequences; two
  pairs with the same sequence, supplied alone, leave \<^verbatim>\<open>bc_to_id\<close> with the one entry
  for the second identifier, the blacklist empty and no warning emitted.
\<close>

theorem C3_duplicate_sequence_collapses:
  "(\<exists>t w. get_tagger id_to_bc ll lp = Inr (t, w)
       \<and> distinct (map fst (bc_to_id t))
       \<and> (\<forall>(p, prev, b) \<in> set w. prev \<noteq> b)
       \<and> (\<forall>(p, s) \<in> set (blacklist t). \<forall>(a, b) \<in> s. a \<noteq> b))
   \<and> (\<exists>t. get_tagger [(id1, S), (id2, S)] ll lp = Inr (t, [])
       \<and> bc_to_id t = [(S, id2)] \<and> blacklist t = [])"
proof
  from get_tagger_result[of id_to_bc ll lp] obtain t found bl w where
    g: "get_tagger id_to_bc ll lp = Inr (t, w)"
    and d: "bc_to_id t = fold (\<lambda>(i, bc). AList.update bc i) id_to_bc []"
    and b: "blacklist t = bl"
    and c: "collisions_inv (set (map fst (bc_to_id t))) (found, bl, w)"
    and i: "index_inv (set (map fst (bc_to_id t))) (found, bl, w)"
    by blast
  have 1: "distinct (map fst (bc_to_id t))" unfolding d by (rule distinct_fold_update) simp
  have 2: "\<forall>(p, prev, b) \<in> set w. prev \<noteq> b"
    using c unfolding collisions_inv_def prod.case by blast
  have 3: "\<forall>(p, s) \<in> set (blacklist t). \<forall>(a, b) \<in> s. a \<noteq> b"
  proof (clarify)
    fix p s a assume "(p, s) \<in> set (blacklist t)" "(a, a) \<in> s"
    moreover have "distinct (map fst bl)" using i by (simp add: index_inv_def)
    ultimately have "map_of bl p = Some s" by (simp add: b)
    then show False using c \<open>(a, a) \<in> s\<close> unfolding collisions_inv_def prod.case by blast
  qed
  show "\<exists>t w. get_tagger id_to_bc ll lp = Inr (t, w)
       \<and> distinct (map fst (bc_to_id t))
       \<and> (\<forall>(p, prev, b) \<in> set w. prev \<noteq> b)
       \<and> (\<forall>(p, s) \<in> set (blacklist t). \<forall>(a, b) \<in> s. a \<noteq> b)"
    using g 1 2 3 by blast
next
  from get_tagger_result[of "[(id1, S), (id2, S)]" ll lp] obtain t found bl w where
    g: "get_tagger [(id1, S), (id2, S)] ll lp = Inr (t, w)"
    and d: "bc_to_id t = fold (\<lambda>(i, bc). AList.update bc i) [(id1, S), (id2, S)] []"
    and b: "blacklist t = bl"
    and c: "collisions_inv (set (map fst (bc_to_id t))) (found, bl, w)"
    by blast
  have d': "bc_to_id t = [(S, id2)]" by (simp add: d)
  have vs: "set (map fst (bc_to_id t)) = {S}" by (simp add: d')
  from c have c': "(\<forall>p v. map_of found p = Some v \<longrightarrow> v \<in> {S})
    \<and> (\<forall>p prev b. (p, prev, b) \<in> set w \<longrightarrow> prev \<noteq> b \<and> prev \<in> {S} \<and> b \<in> {S})
    \<and> (\<forall>p s a b. map_of bl p = Some s \<longrightarrow> (a, b) \<in> s \<longrightarrow> a \<noteq> b)
    \<and> fst ` set bl = fst ` set w"
    unfolding collisions_inv_def prod.case vs .
  then have k: "fst ` set bl = fst ` set w" by (elim conjE)
  have w0: "w = []"
  proof (cases w)
    case Nil
    then show ?thesis .
  next
    case (Cons x xs)
    obtain p prev b where "x = (p, prev, b)" by (cases x) auto
    then have "(p, prev, b) \<in> set w" by (simp add: Cons)
    then have "prev \<noteq> b \<and> prev \<in> {S} \<and> b \<in> {S}" using c' by blast
    then show ?thesis by blast
  qed
  then have "bl = []" using k by simp
  then show "\<exists>t. get_tagger [(id1, S), (id2, S)] ll lp = Inr (t, [])
       \<and> bc_to_id t = [(S, id2)] \<and> blacklist t = []"
    using g d' b w0 by blast
qed

theorem C3_duplicate_sequence_collapses_witness:
  "(\<exists>t w. get_tagger [(''X'', ''AC''), (''Y'', ''AT'')] 0 0 = Inr (t, w)
       \<and> w = [(''AT'', ''AC'', ''AT''), (''AA'', ''AC'', ''AT''),
               (''AG'', ''AC'', ''AT''), (''AC'', ''AC'', ''AT'')]
       \<and> (\<forall>(p, prev, b) \<in> set w. prev \<noteq> b)
       \<and> blacklist t \<noteq> []
       \<and> (\<forall>(p, s) \<in> set (blacklist t). \<forall>(a, b) \<in> s. a \<noteq> b))
   \<and> (\<exists>t. get_tagger [(''BC1'', ''AAAA''), (''BC2'', ''AAAA'')] 2 4 = Inr (t, [])
       \<and> bc_to_id t = [(''AAAA'', ''BC2'')] \<and> blacklist t = [])"
proof -
  note inst = C3_duplicate_sequence_collapses[of "[(''X'', ''AC''), (''Y'', ''AT'')]" 2 4
        "''BC1''" "''AAAA''" "''BC2''"]
  note inst0 = C3_duplicate_sequence_collapses[of "[(''X'', ''AC''), (''Y'', ''AT'')]" 0 0
        "''BC1''" "''AAAA''" "''BC2''"]
  from inst0 obtain t w where g: "get_tagger [(''X'', ''AC''), (''Y'', ''AT'')] 0 0 = Inr (t, w)"
    and 1: "\<forall>(p, prev, b) \<in> set w. prev \<noteq> b"
    and 2: "\<forall>(p, s) \<in> set (blacklist t). \<forall>(a, b) \<in> s. a \<noteq> b"
    by (elim conjE exE)
  have e: "w = [(''AT'', ''AC'', ''AT''), (''AA'', ''AC'', ''AT''),
               (''AG'', ''AC'', ''AT''), (''AC'', ''AC'', ''AT'')] \<and> blacklist t \<noteq> []"
    using g
    by (auto simp add: get_tagger_def ReadTagger_init_def get_all_barcodes_def get_mismatches_def
          bases_without_def claim_pattern_def truthy_def Let_def)
  have A: "\<exists>t w. get_tagger [(''X'', ''AC''), (''Y'', ''AT'')] 0 0 = Inr (t, w)
       \<and> w = [(''AT'', ''AC'', ''AT''), (''AA'', ''AC'', ''AT''),
               (''AG'', ''AC'', ''AT''), (''AC'', ''AC'', ''AT'')]
       \<and> (\<forall>(p, prev, b) \<in> set w. prev \<noteq> b)
       \<and> blacklist t \<noteq> []
       \<and> (\<forall>(p, s) \<in> set (blacklist t). \<forall>(a, b) \<in> s. a \<noteq> b)"
    using g 1 2 e by (intro exI[of _ t] exI[of _ w]) simp
  have B: "\<exists>t. get_tagger [(''BC1'', ''AAAA''), (''BC2'', ''AAAA'')] 2 4 = Inr (t, [])
       \<and> bc_to_id t = [(''AAAA'', ''BC2'')] \<and> blacklist t = []"
    using inst by (rule conjunct2)
  show ?thesis using A B by (rule conjI)
qed

text \<open>
  C3 as stated fails: the sequence \<open>AAAA\<close> supplied under two identifiers is not a key
  of the blacklist, and no warning is emitted.
\<close>

theorem C3_counterexample:
  "map_sum id (\<lambda>(t, w). (bc_to_id t, blacklist t, w))
       (get_tagger [(''BC1'', ''AAAA''), (''BC2'', ''AAAA'')] 2 4)
     = Inr ([(''AAAA'', ''BC2'')], [], [])"
  by (simp add: get_tagger_def ReadTagger_init_def scenario_patterns)

end
